theory Spec2Isabelle
  imports Main "HOL-Library.Multiset"
begin

section \<open>Values shared by all layers\<close>

text \<open>
  The payloads are opaque references owned by the caller (\<open>void *\<close> in the source);
  they are values of a type variable \<open>'a\<close> here. A comparator
  (\<open>sorted_list_compare_func_t\<close>) and a match function
  (\<open>sorted_list_ismatch_func_t\<close>) return a C \<open>int\<close>, of which the code reads
  the sign only.

  The model is the debug build (\<open>NDEBUG\<close> not defined): iterators carry the back
  reference to their list and the assertions are active. An assertion that fires, and a
  use of the linked list engine outside its contract, are results of their own. Handles
  and iterators are never null in the model, so the assertions of the source that only
  test a pointer for \<open>NULL\<close> always pass and are left out.
\<close>

datatype error = AssertionFailed | EngineContractViolated

text \<open>
  A \<open>void *\<close> that a function returns: no value, a payload, or (from
  \<open>PriorityQueueErase\<close>) the queue handle itself.
\<close>

datatype 'a void_ptr = Null | Payload 'a | QueueItself

section \<open>The linked list engine (dll.h)\<close>

text \<open>
  Modelled from the spec: the linked list engine (\<open>dll.h\<close>, \<open>dll.c\<close>) is not
  among the sources. The spec describes it by its interface: bidirectional positions, a
  distinguished end sentinel per container that cannot be dereferenced, insertion before
  a position, removal that returns the following position, pops at both ends, and the
  splice of a contiguous range of one container in front of a position of another.

  A container is the sequence of its payloads in traversal order. A position
  (\<open>dll_iter_t\<close>) is named by the number of nodes in front of it, so that the end
  sentinel of a container of \<open>n\<close> nodes is \<open>n\<close>. Positions are node identities in
  the engine: a node keeps its identity when nodes are linked in front of it, which in
  this numbering raises its index by their number (see \<open>DLLSplice\<close>).
\<close>

type_synonym 'a dll = "'a list"
type_synonym dll_iter = nat

text \<open>Modelled from the spec: \<open>DLLBegin\<close>, the first position (the end sentinel when empty).\<close>

definition DLLBegin :: "'a dll \<Rightarrow> dll_iter" where
  "DLLBegin d = 0"

text \<open>Modelled from the spec: \<open>DLLEnd\<close>, the end sentinel of the container.\<close>

definition DLLEnd :: "'a dll \<Rightarrow> dll_iter" where
  "DLLEnd d = length d"

text \<open>Modelled from the spec: \<open>DLLNext\<close>; stepping past the end sentinel is outside the contract.\<close>

definition DLLNext :: "'a dll \<Rightarrow> dll_iter \<Rightarrow> error + dll_iter" where
  "DLLNext d i = (if i < length d then Inr (Suc i) else Inl EngineContractViolated)"

text \<open>Modelled from the spec: \<open>DLLGetData\<close>; the end sentinel cannot be dereferenced.\<close>

definition DLLGetData :: "'a dll \<Rightarrow> dll_iter \<Rightarrow> error + 'a" where
  "DLLGetData d i = (if i < length d then Inr (d ! i) else Inl EngineContractViolated)"

text \<open>Modelled from the spec: \<open>DLLIsEmpty\<close>, non-zero when the container has no node.\<close>

definition DLLIsEmpty :: "'a dll \<Rightarrow> int" where
  "DLLIsEmpty d = (if d = [] then 1 else 0)"

text \<open>Modelled from the spec: \<open>DLLCount\<close>, the number of nodes.\<close>

definition DLLCount :: "'a dll \<Rightarrow> nat" where
  "DLLCount d = length d"

text \<open>
  Modelled from the spec: \<open>DLLInsertBefore\<close>. The flag \<open>alloc_ok\<close> says whether the
  engine's allocation of the node succeeds. On success the payload is linked in front of
  the position and the position of the new node is returned; on failure the container is
  unchanged and its end position is returned.
\<close>

definition DLLInsertBefore :: "'a dll \<Rightarrow> dll_iter \<Rightarrow> 'a \<Rightarrow> bool \<Rightarrow> error + ('a dll \<times> dll_iter)" where
  "DLLInsertBefore d i x alloc_ok =
     (if length d < i then Inl EngineContractViolated
      else if alloc_ok then Inr (take i d @ x # drop i d, i)
      else Inr (d, DLLEnd d))"

text \<open>
  Modelled from the spec: \<open>DLLRemove\<close> detaches the node at the position and returns the
  position that followed it; the end sentinel cannot be removed.
\<close>

definition DLLRemove :: "'a dll \<Rightarrow> dll_iter \<Rightarrow> error + ('a dll \<times> dll_iter)" where
  "DLLRemove d i =
     (if i < length d then Inr (take i d @ drop (Suc i) d, i) else Inl EngineContractViolated)"

text \<open>
  Modelled from the spec: \<open>DLLPopFront\<close> removes and returns the first payload, and
  returns no value from an empty container, which it leaves as it is.
\<close>

definition DLLPopFront :: "'a dll \<Rightarrow> 'a dll \<times> 'a void_ptr" where
  "DLLPopFront d = (case d of [] \<Rightarrow> (d, Null) | x # xs \<Rightarrow> (xs, Payload x))"

text \<open>Modelled from the spec: \<open>DLLPopBack\<close>, as \<open>DLLPopFront\<close> at the other end.\<close>

definition DLLPopBack :: "'a dll \<Rightarrow> 'a dll \<times> 'a void_ptr" where
  "DLLPopBack d = (if d = [] then (d, Null) else (butlast d, Payload (last d)))"

text \<open>
  Modelled from the spec: \<open>DLLSplice(where, from, to)\<close> unlinks the nodes \<open>[from, to)\<close> of
  the source container and links them, in their order, in front of \<open>where\<close> in the
  destination. It returns both containers.
\<close>

definition DLLSplice :: "'a dll \<Rightarrow> dll_iter \<Rightarrow> 'a dll \<Rightarrow> dll_iter \<Rightarrow> dll_iter \<Rightarrow> error + ('a dll \<times> 'a dll)" where
  "DLLSplice dest wh source from to =
     (if length dest < wh \<or> to < from \<or> length source < to then Inl EngineContractViolated
      else Inr (take wh dest @ take (to - from) (drop from source) @ drop wh dest,
                take from source @ drop to source))"

text \<open>
  Modelled from the spec: a splice is a relink, so the node at \<open>where\<close> keeps its
  identity; afterwards it has \<open>to - from\<close> more nodes in front of it.
\<close>

definition splice_where :: "dll_iter \<Rightarrow> dll_iter \<Rightarrow> dll_iter \<Rightarrow> dll_iter" where
  "splice_where wh from to = wh + (to - from)"

text \<open>
  Modelled from the spec: the node at \<open>to\<close> stays in the source and keeps its identity;
  afterwards it has \<open>to - from\<close> fewer nodes in front of it.
\<close>

definition splice_to :: "dll_iter \<Rightarrow> dll_iter \<Rightarrow> dll_iter" where
  "splice_to from to = to - (to - from)"

text \<open>
  Modelled from the spec: \<open>DLLForEach\<close> calls the action on every payload of
  \<open>[from, to)\<close> in traversal order, stops at the first status that is not zero and
  returns it, and returns zero when the range is exhausted.
\<close>

function DLLForEach :: "'a dll \<Rightarrow> dll_iter \<Rightarrow> dll_iter \<Rightarrow> ('a \<Rightarrow> 'p \<Rightarrow> int) \<Rightarrow> 'p \<Rightarrow> error + int" where
  "DLLForEach d from to action parameter =
     (if from \<noteq> to then
        (case DLLGetData d from of
           Inl e \<Rightarrow> Inl e
         | Inr x \<Rightarrow>
             (let status = action x parameter in
              if status \<noteq> 0 then Inr status
              else (case DLLNext d from of
                      Inl e \<Rightarrow> Inl e
                    | Inr nxt \<Rightarrow> DLLForEach d nxt to action parameter)))
      else Inr 0)"
  by pat_completeness auto
termination
  by (relation "measure (\<lambda>(d, from, to, action, parameter). length d - from)")
     (auto simp: DLLNext_def DLLGetData_def split: if_splits)

declare DLLForEach.simps [simp del]

section \<open>The sorted list (sorted_list.c)\<close>

text \<open>
  \<open>struct sorted_list\<close> owns its engine container and holds the comparator. The field
  \<open>self\<close> is the address of the struct, which is what a \<open>sorted_list_t *\<close> is compared
  by and what a debug iterator records as its list.
\<close>

record 'a sorted_list =
  self :: nat
  dll :: "'a dll"
  cmp :: "'a \<Rightarrow> 'a \<Rightarrow> int"

text \<open>\<open>sorted_list_iter_t\<close> of the debug build: the engine position and the owning list.\<close>

record sorted_list_iter =
  iterator :: dll_iter
  list :: nat

text \<open>
  \<open>SortedListCreate\<close>: \<open>mem\<close> is what \<open>malloc\<close> returns for the struct (\<open>None\<close> for
  \<open>NULL\<close>) and \<open>engine_ok\<close> whether \<open>DLLCreate\<close> succeeds.
\<close>

definition SortedListCreate :: "nat option \<Rightarrow> bool \<Rightarrow> ('a \<Rightarrow> 'a \<Rightarrow> int) \<Rightarrow> 'a sorted_list option" where
  "SortedListCreate mem engine_ok compare =
     (case mem of
        None \<Rightarrow> None
      | Some p \<Rightarrow> if \<not> engine_ok then None else Some \<lparr>self = p, dll = [], cmp = compare\<rparr>)"

definition SortedListCount :: "'a sorted_list \<Rightarrow> nat" where
  "SortedListCount sorted_list = DLLCount (dll sorted_list)"

definition SortedListBegin :: "'a sorted_list \<Rightarrow> sorted_list_iter" where
  "SortedListBegin sorted_list = \<lparr>iterator = DLLBegin (dll sorted_list), list = self sorted_list\<rparr>"

definition SortedListEnd :: "'a sorted_list \<Rightarrow> sorted_list_iter" where
  "SortedListEnd sorted_list = \<lparr>iterator = DLLEnd (dll sorted_list), list = self sorted_list\<rparr>"

text \<open>
  The functions that take only iterators in the source read the nodes through them; here
  they take the list the iterator points into as well.
\<close>

definition SortedListNext :: "'a sorted_list \<Rightarrow> sorted_list_iter \<Rightarrow> error + sorted_list_iter" where
  "SortedListNext sorted_list it =
     (case DLLNext (dll sorted_list) (iterator it) of
        Inl e \<Rightarrow> Inl e
      | Inr n \<Rightarrow> Inr (it\<lparr>iterator := n\<rparr>))"

definition SortedListIsEmpty :: "'a sorted_list \<Rightarrow> int" where
  "SortedListIsEmpty sorted_list = DLLIsEmpty (dll sorted_list)"

definition SortedListIsEqual :: "sorted_list_iter \<Rightarrow> sorted_list_iter \<Rightarrow> int" where
  "SortedListIsEqual iter1 iter2 = (if iterator iter1 = iterator iter2 then 1 else 0)"

definition SortedListGetData :: "'a sorted_list \<Rightarrow> sorted_list_iter \<Rightarrow> error + 'a" where
  "SortedListGetData sorted_list it = DLLGetData (dll sorted_list) (iterator it)"

text \<open>
  The \<open>while\<close> loop of \<open>SortedListInsert\<close>: it advances \<open>start\<close> while it is not the end
  and the comparator is negative on the current payload and the new one.
\<close>

function insert_scan :: "'a sorted_list \<Rightarrow> 'a \<Rightarrow> sorted_list_iter \<Rightarrow> sorted_list_iter \<Rightarrow> error + sorted_list_iter" where
  "insert_scan sorted_list data end start =
     (if iterator start \<noteq> iterator end then
        (case SortedListGetData sorted_list start of
           Inl e \<Rightarrow> Inl e
         | Inr cur \<Rightarrow>
             if 0 > cmp sorted_list cur data then
               (case SortedListNext sorted_list start of
                  Inl e \<Rightarrow> Inl e
                | Inr nxt \<Rightarrow> insert_scan sorted_list data end nxt)
             else Inr start)
      else Inr start)"
  by pat_completeness auto
termination
  by (relation "measure (\<lambda>(sorted_list, data, end, start). length (dll sorted_list) - iterator start)")
     (auto simp: SortedListNext_def SortedListGetData_def DLLNext_def DLLGetData_def split: if_splits)

declare insert_scan.simps [simp del]

definition SortedListInsert :: "'a sorted_list \<Rightarrow> 'a \<Rightarrow> bool \<Rightarrow> error + ('a sorted_list \<times> sorted_list_iter)" where
  "SortedListInsert sorted_list data alloc_ok =
     (let end = SortedListEnd sorted_list;
          start = SortedListBegin sorted_list
      in case insert_scan sorted_list data end start of
           Inl e \<Rightarrow> Inl e
         | Inr start' \<Rightarrow>
             (case DLLInsertBefore (dll sorted_list) (iterator start') data alloc_ok of
                Inl e \<Rightarrow> Inl e
              | Inr (d, pos) \<Rightarrow>
                  Inr (sorted_list\<lparr>dll := d\<rparr>, \<lparr>iterator = pos, list = self sorted_list\<rparr>)))"

definition SortedListRemove :: "'a sorted_list \<Rightarrow> sorted_list_iter \<Rightarrow> error + ('a sorted_list \<times> sorted_list_iter)" where
  "SortedListRemove sorted_list it =
     (case DLLRemove (dll sorted_list) (iterator it) of
        Inl e \<Rightarrow> Inl e
      | Inr (d, n) \<Rightarrow> Inr (sorted_list\<lparr>dll := d\<rparr>, it\<lparr>iterator := n\<rparr>))"

definition SortedListPopBack :: "'a sorted_list \<Rightarrow> 'a sorted_list \<times> 'a void_ptr" where
  "SortedListPopBack sorted_list =
     (case DLLPopBack (dll sorted_list) of (d, p) \<Rightarrow> (sorted_list\<lparr>dll := d\<rparr>, p))"

definition SortedListPopFront :: "'a sorted_list \<Rightarrow> 'a sorted_list \<times> 'a void_ptr" where
  "SortedListPopFront sorted_list =
     (case DLLPopFront (dll sorted_list) of (d, p) \<Rightarrow> (sorted_list\<lparr>dll := d\<rparr>, p))"

text \<open>
  \<open>SortedListMerge\<close>. The first inner loop advances \<open>runner\<close> in \<open>dest\<close> while the
  comparator of \<open>dest\<close> is not positive on the payload at \<open>runner\<close> and the one at
  \<open>from\<close>.
\<close>

function merge_runner :: "'a sorted_list \<Rightarrow> 'a sorted_list \<Rightarrow> dll_iter \<Rightarrow> dll_iter \<Rightarrow> error + dll_iter" where
  "merge_runner dest source from runner =
     (if runner \<noteq> DLLEnd (dll dest) then
        (case DLLGetData (dll dest) runner of
           Inl e \<Rightarrow> Inl e
         | Inr r \<Rightarrow>
             (case DLLGetData (dll source) from of
                Inl e \<Rightarrow> Inl e
              | Inr f \<Rightarrow>
                  if 0 \<ge> cmp dest r f then
                    (case DLLNext (dll dest) runner of
                       Inl e \<Rightarrow> Inl e
                     | Inr nxt \<Rightarrow> merge_runner dest source from nxt)
                  else Inr runner))
      else Inr runner)"
  by pat_completeness auto
termination
  by (relation "measure (\<lambda>(dest, source, from, runner). length (dll dest) - runner)")
     (auto simp: DLLNext_def DLLGetData_def split: if_splits)

declare merge_runner.simps [simp del]

text \<open>
  The second inner loop advances \<open>to\<close> in \<open>source\<close> while the comparator of \<open>dest\<close> is
  negative on the payload at \<open>to\<close> and the one at \<open>runner\<close>.
\<close>

function merge_to :: "'a sorted_list \<Rightarrow> 'a sorted_list \<Rightarrow> dll_iter \<Rightarrow> dll_iter \<Rightarrow> error + dll_iter" where
  "merge_to dest source runner to =
     (if to \<noteq> DLLEnd (dll source) then
        (case DLLGetData (dll source) to of
           Inl e \<Rightarrow> Inl e
         | Inr t \<Rightarrow>
             (case DLLGetData (dll dest) runner of
                Inl e \<Rightarrow> Inl e
              | Inr r \<Rightarrow>
                  if 0 > cmp dest t r then
                    (case DLLNext (dll source) to of
                       Inl e \<Rightarrow> Inl e
                     | Inr nxt \<Rightarrow> merge_to dest source runner nxt)
                  else Inr to))
      else Inr to)"
  by pat_completeness auto
termination
  by (relation "measure (\<lambda>(dest, source, runner, to). length (dll source) - to)")
     (auto simp: DLLNext_def DLLGetData_def split: if_splits)

declare merge_to.simps [simp del]

text \<open>
  The outer loop runs until \<open>source\<close> is empty. Nothing in the code bounds the number of
  its rounds, so it is a partial function: \<open>None\<close> is a run that never returns. After
  the splice \<open>runner\<close> and \<open>to\<close> still name their nodes, and \<open>from\<close> is read again as
  the first position of \<open>source\<close>.
\<close>

partial_function (option) merge_loop :: "'a sorted_list \<Rightarrow> 'a sorted_list \<Rightarrow> dll_iter \<Rightarrow> dll_iter \<Rightarrow> dll_iter \<Rightarrow> (error + ('a sorted_list \<times> 'a sorted_list)) option" where
  "merge_loop dest source from runner to =
     (if from \<noteq> DLLEnd (dll source) then
        (case merge_runner dest source from runner of
           Inl e \<Rightarrow> Some (Inl e)
         | Inr runner' \<Rightarrow>
             (case (if runner' = DLLEnd (dll dest) then Inr (DLLEnd (dll source))
                    else merge_to dest source runner' to) of
                Inl e \<Rightarrow> Some (Inl e)
              | Inr to' \<Rightarrow>
                  (case DLLSplice (dll dest) runner' (dll source) from to' of
                     Inl e \<Rightarrow> Some (Inl e)
                   | Inr (d, s) \<Rightarrow>
                       merge_loop (dest\<lparr>dll := d\<rparr>) (source\<lparr>dll := s\<rparr>) (DLLBegin s)
                         (splice_where runner' from to') (splice_to from to'))))
      else Some (Inr (dest, source)))"

declare merge_loop.simps [code]

definition SortedListMerge :: "'a sorted_list \<Rightarrow> 'a sorted_list \<Rightarrow> (error + ('a sorted_list \<times> 'a sorted_list)) option" where
  "SortedListMerge dest source =
     (let to = DLLBegin (dll source);
          runner = DLLBegin (dll dest);
          from = DLLBegin (dll source)
      in merge_loop dest source from runner to)"

text \<open>
  \<open>SortedListFind\<close>: the debug assertion on the two back references, then the
  \<open>for\<close> loop, which advances \<open>target\<close> while it is not \<open>to\<close> and the comparator is
  positive on the current payload and the parameter.
\<close>

function find_scan :: "'a sorted_list \<Rightarrow> sorted_list_iter \<Rightarrow> 'a \<Rightarrow> sorted_list_iter \<Rightarrow> error + sorted_list_iter" where
  "find_scan l to parameter target =
     (if iterator target \<noteq> iterator to then
        (case SortedListGetData l target of
           Inl e \<Rightarrow> Inl e
         | Inr cur \<Rightarrow>
             if 0 < cmp l cur parameter then
               (case SortedListNext l target of
                  Inl e \<Rightarrow> Inl e
                | Inr nxt \<Rightarrow> find_scan l to parameter nxt)
             else Inr target)
      else Inr target)"
  by pat_completeness auto
termination
  by (relation "measure (\<lambda>(l, to, parameter, target). length (dll l) - iterator target)")
     (auto simp: SortedListNext_def SortedListGetData_def DLLNext_def DLLGetData_def split: if_splits)

declare find_scan.simps [simp del]

definition SortedListFind :: "'a sorted_list \<Rightarrow> sorted_list_iter \<Rightarrow> sorted_list_iter \<Rightarrow> 'a \<Rightarrow> error + sorted_list_iter" where
  "SortedListFind l from to parameter =
     (if list from \<noteq> list to then Inl AssertionFailed
      else find_scan l to parameter from)"

text \<open>
  \<open>SortedListFindIf\<close>: the same assertion, then the loop that returns the first
  position of the range whose payload the match function accepts, and \<open>to\<close> when there is
  none.
\<close>

function findif_scan :: "'a sorted_list \<Rightarrow> sorted_list_iter \<Rightarrow> ('a \<Rightarrow> 'p \<Rightarrow> int) \<Rightarrow> 'p \<Rightarrow> sorted_list_iter \<Rightarrow> error + sorted_list_iter" where
  "findif_scan l to match parameter runner =
     (if iterator runner \<noteq> iterator to then
        (case SortedListGetData l runner of
           Inl e \<Rightarrow> Inl e
         | Inr x \<Rightarrow>
             if match x parameter \<noteq> 0 then Inr runner
             else (case SortedListNext l runner of
                     Inl e \<Rightarrow> Inl e
                   | Inr nxt \<Rightarrow> findif_scan l to match parameter nxt))
      else Inr to)"
  by pat_completeness auto
termination
  by (relation "measure (\<lambda>(l, to, match, parameter, runner). length (dll l) - iterator runner)")
     (auto simp: SortedListNext_def SortedListGetData_def DLLNext_def DLLGetData_def split: if_splits)

declare findif_scan.simps [simp del]

definition SortedListFindIf :: "'a sorted_list \<Rightarrow> sorted_list_iter \<Rightarrow> sorted_list_iter \<Rightarrow> ('a \<Rightarrow> 'p \<Rightarrow> int) \<Rightarrow> 'p \<Rightarrow> error + sorted_list_iter" where
  "SortedListFindIf l from to match parameter =
     (if list from \<noteq> list to then Inl AssertionFailed
      else findif_scan l to match parameter from)"

text \<open>
  \<open>SortedListForEach\<close>: in the debug build two iterators of different lists make it
  return \<open>-1\<close>; otherwise it is the engine's traversal.
\<close>

definition SortedListForEach :: "'a sorted_list \<Rightarrow> sorted_list_iter \<Rightarrow> sorted_list_iter \<Rightarrow> ('a \<Rightarrow> 'p \<Rightarrow> int) \<Rightarrow> 'p \<Rightarrow> error + int" where
  "SortedListForEach l from to action parameter =
     (if list from \<noteq> list to then Inr (- 1)
      else DLLForEach (dll l) (iterator from) (iterator to) action parameter)"

section \<open>The priority queue (priority_queue.c)\<close>

record 'a priority_queue =
  sorted_list :: "'a sorted_list"

text \<open>
  \<open>PriorityQueueCreate\<close>: \<open>qmem\<close> is whether \<open>malloc\<close> returns memory for the queue; the
  other arguments are those of \<open>SortedListCreate\<close>.
\<close>

definition PriorityQueueCreate :: "bool \<Rightarrow> nat option \<Rightarrow> bool \<Rightarrow> ('a \<Rightarrow> 'a \<Rightarrow> int) \<Rightarrow> 'a priority_queue option" where
  "PriorityQueueCreate qmem mem engine_ok compare =
     (if \<not> qmem then None
      else (case SortedListCreate mem engine_ok compare of
              None \<Rightarrow> None
            | Some l \<Rightarrow> Some \<lparr>sorted_list = l\<rparr>))"

definition PriorityQueueEnqueue :: "'a priority_queue \<Rightarrow> 'a \<Rightarrow> bool \<Rightarrow> error + ('a priority_queue \<times> int)" where
  "PriorityQueueEnqueue queue data alloc_ok =
     (case SortedListInsert (sorted_list queue) data alloc_ok of
        Inl e \<Rightarrow> Inl e
      | Inr (l, insert') \<Rightarrow>
          Inr (queue\<lparr>sorted_list := l\<rparr>, SortedListIsEqual (SortedListEnd l) insert'))"

definition PriorityQueueDequeue :: "'a priority_queue \<Rightarrow> 'a priority_queue \<times> 'a void_ptr" where
  "PriorityQueueDequeue queue =
     (case SortedListPopFront (sorted_list queue) of
        (l, p) \<Rightarrow> (queue\<lparr>sorted_list := l\<rparr>, p))"

definition PriorityQueuePeek :: "'a priority_queue \<Rightarrow> error + 'a" where
  "PriorityQueuePeek queue =
     SortedListGetData (sorted_list queue) (SortedListBegin (sorted_list queue))"

definition PriorityQueueIsEmpty :: "'a priority_queue \<Rightarrow> int" where
  "PriorityQueueIsEmpty queue = SortedListIsEmpty (sorted_list queue)"

definition PriorityQueueSize :: "'a priority_queue \<Rightarrow> nat" where
  "PriorityQueueSize queue = SortedListCount (sorted_list queue)"

definition PriorityQueueErase :: "'a priority_queue \<Rightarrow> ('a \<Rightarrow> 'p \<Rightarrow> int) \<Rightarrow> 'p \<Rightarrow> error + ('a priority_queue \<times> 'a void_ptr)" where
  "PriorityQueueErase queue ismatch parameter =
     (case SortedListFindIf (sorted_list queue) (SortedListBegin (sorted_list queue))
             (SortedListEnd (sorted_list queue)) ismatch parameter of
        Inl e \<Rightarrow> Inl e
      | Inr result \<Rightarrow>
          if SortedListIsEqual result (SortedListEnd (sorted_list queue)) \<noteq> 0
          then Inr (queue, QueueItself)
          else (case SortedListGetData (sorted_list queue) result of
                  Inl e \<Rightarrow> Inl e
                | Inr data \<Rightarrow>
                    (case SortedListRemove (sorted_list queue) result of
                       Inl e \<Rightarrow> Inl e
                     | Inr (l, nxt) \<Rightarrow> Inr (queue\<lparr>sorted_list := l\<rparr>, Payload data))))"

section \<open>Comparators and payloads used in the examples\<close>

text \<open>
  The comparator of the spec's scenario, numeric ascending priority: by the convention of
  \<open>sorted_list.h\<close> the result is positive when the new payload goes in front of the
  existing one, so the smaller number is dequeued first.
\<close>

definition num_ascending :: "int \<Rightarrow> int \<Rightarrow> int" where
  "num_ascending data new_data = data - new_data"

text \<open>The opposite policy: the larger number goes first.\<close>

definition num_descending :: "int \<Rightarrow> int \<Rightarrow> int" where
  "num_descending data new_data = new_data - data"

text \<open>Payloads that carry a priority and a tag; the comparator reads the priority only.\<close>

definition by_priority :: "int \<times> nat \<Rightarrow> int \<times> nat \<Rightarrow> int" where
  "by_priority data new_data = fst data - fst new_data"

text \<open>The queue of the scenarios: it lives at address 0 and orders numbers ascending.\<close>

definition queue_of :: "int list \<Rightarrow> int priority_queue" where
  "queue_of xs = \<lparr>sorted_list = \<lparr>self = 0, dll = xs, cmp = num_ascending\<rparr>\<rparr>"

text \<open>Match functions: "equals the parameter", on numbers and on the priority of a tagged payload.\<close>

definition equals :: "int \<Rightarrow> int \<Rightarrow> int" where
  "equals data parameter = (if data = parameter then 1 else 0)"

definition priority_is :: "int \<times> nat \<Rightarrow> int \<Rightarrow> int" where
  "priority_is data parameter = (if fst data = parameter then 1 else 0)"

text \<open>An action that succeeds on every payload.\<close>

definition count_action :: "int \<Rightarrow> int \<Rightarrow> int" where
  "count_action data parameter = 0"

section \<open>Sortedness, comparators and sequences of operations\<close>

text \<open>
  The order the code keeps: on every two payloads that are neighbours in traversal
  order the comparator is zero or negative, which \<open>sorted_list.h\<close> reads as "the later
  payload does not go in front of the earlier one".
\<close>

definition sorted_by :: "('a \<Rightarrow> 'a \<Rightarrow> int) \<Rightarrow> 'a list \<Rightarrow> bool" where
  "sorted_by c xs = successively (\<lambda>a b. c a b \<le> 0) xs"

text \<open>
  What the code relies on in a comparator: when it says that \<open>b\<close> goes in front of
  \<open>a\<close>, it says that \<open>a\<close> goes behind \<open>b\<close>; and "does not go in front of" is
  transitive.
\<close>

definition sign_antisymmetric :: "('a \<Rightarrow> 'a \<Rightarrow> int) \<Rightarrow> bool" where
  "sign_antisymmetric c = (\<forall>a b. 0 < c a b \<longrightarrow> c b a < 0)"

definition transitive_sign :: "('a \<Rightarrow> 'a \<Rightarrow> int) \<Rightarrow> bool" where
  "transitive_sign c = (\<forall>x y z. c x y \<le> 0 \<longrightarrow> c y z \<le> 0 \<longrightarrow> c x z \<le> 0)"

text \<open>
  A client's calls on a set of lists, which are named by their index in the set:
  \<open>SortedListInsert\<close> (with the outcome of the engine's allocation),
  \<open>SortedListRemove\<close> at a position, the two pops, and \<open>SortedListMerge\<close> of one
  list into another one. A call that the model does not complete (a violated contract, a
  merge that does not return, a list that does not exist, a merge of a list into itself)
  ends the sequence with \<open>None\<close>.
\<close>

datatype 'a operation =
    Insert nat 'a bool
  | Remove nat dll_iter
  | PopFront nat
  | PopBack nat
  | Merge nat nat

fun apply_operation :: "'a sorted_list list \<Rightarrow> 'a operation \<Rightarrow> 'a sorted_list list option" where
  "apply_operation ls (Insert h data alloc_ok) =
     (if h < length ls then
        (case SortedListInsert (ls ! h) data alloc_ok of
           Inl e \<Rightarrow> None
         | Inr (l, it) \<Rightarrow> Some (ls[h := l]))
      else None)"
| "apply_operation ls (Remove h pos) =
     (if h < length ls then
        (case SortedListRemove (ls ! h) \<lparr>iterator = pos, list = self (ls ! h)\<rparr> of
           Inl e \<Rightarrow> None
         | Inr (l, it) \<Rightarrow> Some (ls[h := l]))
      else None)"
| "apply_operation ls (PopFront h) =
     (if h < length ls then Some (ls[h := fst (SortedListPopFront (ls ! h))]) else None)"
| "apply_operation ls (PopBack h) =
     (if h < length ls then Some (ls[h := fst (SortedListPopBack (ls ! h))]) else None)"
| "apply_operation ls (Merge hdest hsource) =
     (if hdest < length ls \<and> hsource < length ls \<and> hdest \<noteq> hsource then
        (case SortedListMerge (ls ! hdest) (ls ! hsource) of
           Some (Inr (d, s)) \<Rightarrow> Some (ls[hdest := d, hsource := s])
         | _ \<Rightarrow> None)
      else None)"

fun run_operations :: "'a sorted_list list \<Rightarrow> 'a operation list \<Rightarrow> 'a sorted_list list option" where
  "run_operations ls [] = Some ls"
| "run_operations ls (x # xs) =
     (case apply_operation ls x of None \<Rightarrow> None | Some ls' \<Rightarrow> run_operations ls' xs)"

text \<open>Every list of the set uses the comparator \<open>c\<close> and is sorted by it.\<close>

definition all_sorted :: "('a \<Rightarrow> 'a \<Rightarrow> int) \<Rightarrow> 'a sorted_list list \<Rightarrow> bool" where
  "all_sorted c ls = list_all (\<lambda>l. cmp l = c \<and> sorted_by c (dll l)) ls"

section \<open>Properties of insertion\<close>

text \<open>
  From a position of the list and with the end of the list as bound, the scan of
  \<open>SortedListInsert\<close> stops behind the longest run of payloads on which the comparator
  is negative.
\<close>

lemma insert_scan_eq:
  "iterator start \<le> length (dll sl) \<Longrightarrow> iterator en = length (dll sl) \<Longrightarrow>
   insert_scan sl data en start =
     Inr (start\<lparr>iterator := iterator start +
            length (takeWhile (\<lambda>y. cmp sl y data < 0) (drop (iterator start) (dll sl)))\<rparr>)"
proof (induction sl data en start rule: insert_scan.induct)
  case (1 sl data en start)
  show ?case
  proof (cases "iterator start = length (dll sl)")
    case True
    with "1.prems" show ?thesis by (simp add: insert_scan.simps[of sl data en start])
  next
    case False
    with "1.prems" have lt: "iterator start < length (dll sl)" by simp
    then have dr: "drop (iterator start) (dll sl) =
                     dll sl ! iterator start # drop (Suc (iterator start)) (dll sl)"
      by (simp add: Cons_nth_drop_Suc)
    show ?thesis
    proof (cases "cmp sl (dll sl ! iterator start) data < 0")
      case True
      have "insert_scan sl data en start =
              insert_scan sl data en (start\<lparr>iterator := Suc (iterator start)\<rparr>)"
        using lt True "1.prems"
        by (subst insert_scan.simps)
           (simp add: SortedListGetData_def SortedListNext_def DLLGetData_def DLLNext_def)
      also have "\<dots> = Inr (start\<lparr>iterator := Suc (iterator start) +
            length (takeWhile (\<lambda>y. cmp sl y data < 0) (drop (Suc (iterator start)) (dll sl)))\<rparr>)"
        using "1.IH"[of "dll sl ! iterator start" "start\<lparr>iterator := Suc (iterator start)\<rparr>"]
          lt True "1.prems"
        by (simp add: SortedListGetData_def SortedListNext_def DLLGetData_def DLLNext_def)
      finally show ?thesis using True dr by simp
    next
      case False
      then show ?thesis using lt "1.prems" dr
        by (subst insert_scan.simps)
           (simp add: SortedListGetData_def SortedListNext_def DLLGetData_def DLLNext_def)
    qed
  qed
qed

lemma insert_scan_whole:
  "insert_scan sl data (SortedListEnd sl) (SortedListBegin sl) =
     Inr \<lparr>iterator = length (takeWhile (\<lambda>y. cmp sl y data < 0) (dll sl)), list = self sl\<rparr>"
  using insert_scan_eq[of "SortedListBegin sl" sl "SortedListEnd sl" data]
  by (simp add: SortedListBegin_def SortedListEnd_def DLLBegin_def DLLEnd_def)

lemma SortedListInsert_ok:
  "SortedListInsert sl data True =
     Inr (sl\<lparr>dll := takeWhile (\<lambda>y. cmp sl y data < 0) (dll sl) @ data #
                       dropWhile (\<lambda>y. cmp sl y data < 0) (dll sl)\<rparr>,
          \<lparr>iterator = length (takeWhile (\<lambda>y. cmp sl y data < 0) (dll sl)), list = self sl\<rparr>)"
proof -
  let ?P = "\<lambda>y. cmp sl y data < 0"
  let ?n = "length (takeWhile ?P (dll sl))"
  have le: "?n \<le> length (dll sl)" by (rule length_takeWhile_le)
  have tk: "take ?n (dll sl) = takeWhile ?P (dll sl)"
    by (rule takeWhile_eq_take[symmetric])
  have dr: "drop ?n (dll sl) = dropWhile ?P (dll sl)"
    by (rule dropWhile_eq_drop[symmetric])
  show ?thesis
    unfolding SortedListInsert_def Let_def insert_scan_whole
    using le by (simp add: DLLInsertBefore_def tk dr)
qed

lemma SortedListInsert_failed:
  "SortedListInsert sl data False = Inr (sl, SortedListEnd sl)"
proof -
  have le: "length (takeWhile (\<lambda>y. cmp sl y data < 0) (dll sl)) \<le> length (dll sl)"
    by (rule length_takeWhile_le)
  show ?thesis
    unfolding SortedListInsert_def Let_def insert_scan_whole
    using le by (simp add: DLLInsertBefore_def SortedListEnd_def)
qed

text \<open>
  C2. Insertion ties are last in, first out. \<open>SortedListInsert\<close> passes the payloads on
  which the comparator is negative and links the new payload in front of the first one on
  which it is zero or positive, or in front of the end. So when \<open>e1\<close> is inserted and then
  \<open>e2\<close> with \<open>compare(e1, e2) = 0\<close>, the second scan stops at \<open>e1\<close> at the latest and
  \<open>e2\<close> precedes \<open>e1\<close> in traversal order; it stands immediately in front of \<open>e1\<close> when
  every payload the first scan passed is passed by the second one as well.
\<close>

theorem insert_ties_lifo:
  "SortedListInsert sl data True =
     Inr (sl\<lparr>dll := takeWhile (\<lambda>y. cmp sl y data < 0) (dll sl) @ data #
                       dropWhile (\<lambda>y. cmp sl y data < 0) (dll sl)\<rparr>,
          \<lparr>iterator = length (takeWhile (\<lambda>y. cmp sl y data < 0) (dll sl)), list = self sl\<rparr>)
   \<and> (cmp sl e1 e2 = 0 \<longrightarrow>
        (\<exists>sl1 it1 sl2 it2 pre mid post.
           SortedListInsert sl e1 True = Inr (sl1, it1) \<and>
           SortedListInsert sl1 e2 True = Inr (sl2, it2) \<and>
           dll sl1 = pre @ mid @ e1 # post \<and>
           dll sl2 = pre @ e2 # mid @ e1 # post \<and>
           ((\<forall>y \<in> set (dll sl). cmp sl y e1 < 0 \<longrightarrow> cmp sl y e2 < 0) \<longrightarrow> mid = [])))"
proof (rule conjI[OF SortedListInsert_ok], rule impI)
  assume tie: "cmp sl e1 e2 = 0"
  let ?P1 = "\<lambda>y. cmp sl y e1 < 0"
  let ?P2 = "\<lambda>y. cmp sl y e2 < 0"
  let ?A = "takeWhile ?P1 (dll sl)"
  let ?B = "dropWhile ?P1 (dll sl)"
  let ?sl1 = "sl\<lparr>dll := ?A @ e1 # ?B\<rparr>"
  let ?pre = "takeWhile ?P2 ?A"
  let ?mid = "dropWhile ?P2 ?A"
  have nP: "\<not> ?P2 e1" using tie by simp
  have tw: "takeWhile ?P2 (?A @ e1 # ?B) = ?pre"
  proof (cases "\<forall>y \<in> set ?A. ?P2 y")
    case True
    have e: "?pre = ?A" using True by simp
    have "takeWhile ?P2 (?A @ e1 # ?B) = ?A" using True nP by simp
    then show ?thesis unfolding e .
  next
    case False
    then obtain y where "y \<in> set ?A" "\<not> ?P2 y" by blast
    then show ?thesis by simp
  qed
  have dw: "dropWhile ?P2 (?A @ e1 # ?B) = ?mid @ e1 # ?B"
  proof (cases "\<forall>y \<in> set ?A. ?P2 y")
    case True
    have e: "?mid = []" using True by simp
    have "dropWhile ?P2 (?A @ e1 # ?B) = e1 # ?B" using True nP by simp
    then show ?thesis unfolding e by simp
  next
    case False
    then obtain y where "y \<in> set ?A" "\<not> ?P2 y" by blast
    then show ?thesis by simp
  qed
  have i1: "SortedListInsert sl e1 True = Inr (?sl1, \<lparr>iterator = length ?A, list = self sl\<rparr>)"
    by (rule SortedListInsert_ok)
  have i2: "SortedListInsert ?sl1 e2 True =
              Inr (?sl1\<lparr>dll := ?pre @ e2 # ?mid @ e1 # ?B\<rparr>,
                   \<lparr>iterator = length ?pre, list = self sl\<rparr>)"
    using SortedListInsert_ok[of ?sl1 e2] by (simp add: tw dw)
  have mid: "(\<forall>y \<in> set (dll sl). ?P1 y \<longrightarrow> ?P2 y) \<longrightarrow> ?mid = []"
  proof
    assume h: "\<forall>y \<in> set (dll sl). ?P1 y \<longrightarrow> ?P2 y"
    have "\<forall>y \<in> set ?A. ?P2 y"
    proof
      fix y assume "y \<in> set ?A"
      then have "y \<in> set (dll sl)" "?P1 y" by (auto dest: set_takeWhileD)
      with h show "?P2 y" by blast
    qed
    then show "?mid = []" by simp
  qed
  have d1: "dll ?sl1 = ?pre @ ?mid @ e1 # ?B" by simp
  show "\<exists>sl1 it1 sl2 it2 pre mid post.
           SortedListInsert sl e1 True = Inr (sl1, it1) \<and>
           SortedListInsert sl1 e2 True = Inr (sl2, it2) \<and>
           dll sl1 = pre @ mid @ e1 # post \<and>
           dll sl2 = pre @ e2 # mid @ e1 # post \<and>
           ((\<forall>y \<in> set (dll sl). cmp sl y e1 < 0 \<longrightarrow> cmp sl y e2 < 0) \<longrightarrow> mid = [])"
    using i1 i2 d1 mid by (intro exI[of _ ?sl1] exI conjI) (assumption | simp)+
qed

text \<open>
  The tie on an empty list: two payloads of priority 1, tagged 0 and 1, inserted in this
  order, are traversed as tag 1, then tag 0.
\<close>

theorem insert_ties_lifo_witness:
  "cmp \<lparr>self = 0, dll = [], cmp = by_priority\<rparr> (1, 0) (1, 1) = 0 \<and>
   SortedListInsert \<lparr>self = 0, dll = [], cmp = by_priority\<rparr> (1, 0) True =
     Inr (\<lparr>self = 0, dll = [(1, 0)], cmp = by_priority\<rparr>, \<lparr>iterator = 0, list = 0\<rparr>) \<and>
   SortedListInsert \<lparr>self = 0, dll = [(1, 0)], cmp = by_priority\<rparr> (1, 1) True =
     Inr (\<lparr>self = 0, dll = [(1, 1), (1, 0)], cmp = by_priority\<rparr>, \<lparr>iterator = 0, list = 0\<rparr>) \<and>
   (\<exists>sl1 it1 sl2 it2 pre post.
      SortedListInsert \<lparr>self = 0, dll = [], cmp = by_priority\<rparr> (1, 0) True = Inr (sl1, it1) \<and>
      SortedListInsert sl1 (1, 1) True = Inr (sl2, it2) \<and>
      dll sl1 = pre @ (1, 0) # post \<and>
      dll sl2 = pre @ (1, 1) # (1, 0) # post)"
proof -
  let ?sl = "\<lparr>self = 0, dll = [], cmp = by_priority\<rparr>"
  have tie: "cmp ?sl (1, 0) (1, 1) = 0" by (simp add: by_priority_def)
  have a: "SortedListInsert ?sl (1, 0) True =
     Inr (\<lparr>self = 0, dll = [(1, 0)], cmp = by_priority\<rparr>, \<lparr>iterator = 0, list = 0\<rparr>)"
    using insert_ties_lifo[of ?sl "(1, 0)" "(1, 0)" "(1, 1)"] by simp
  have b: "SortedListInsert \<lparr>self = 0, dll = [(1, 0)], cmp = by_priority\<rparr> (1, 1) True =
     Inr (\<lparr>self = 0, dll = [(1, 1), (1, 0)], cmp = by_priority\<rparr>, \<lparr>iterator = 0, list = 0\<rparr>)"
    using insert_ties_lifo[of "\<lparr>self = 0, dll = [(1, 0)], cmp = by_priority\<rparr>" "(1, 1)" "(1, 0)" "(1, 1)"]
    by (simp add: by_priority_def)
  have c: "\<exists>sl1 it1 sl2 it2 pre post.
      SortedListInsert ?sl (1, 0) True = Inr (sl1, it1) \<and>
      SortedListInsert sl1 (1, 1) True = Inr (sl2, it2) \<and>
      dll sl1 = pre @ (1, 0) # post \<and>
      dll sl2 = pre @ (1, 1) # (1, 0) # post"
  proof -
    from insert_ties_lifo[of ?sl "(1, 0)" "(1, 0)" "(1, 1)"] tie
    obtain sl1 it1 sl2 it2 pre mid post where
      i1: "SortedListInsert ?sl (1, 0) True = Inr (sl1, it1)" and
      i2: "SortedListInsert sl1 (1, 1) True = Inr (sl2, it2)" and
      d1: "dll sl1 = pre @ mid @ (1, 0) # post" and
      d2: "dll sl2 = pre @ (1, 1) # mid @ (1, 0) # post" and
      m: "(\<forall>y \<in> set (dll ?sl). cmp ?sl y (1, 0) < 0 \<longrightarrow> cmp ?sl y (1, 1) < 0) \<longrightarrow> mid = []"
      by blast
    from m have "mid = []" by simp
    with i1 i2 d1 d2 show ?thesis by auto
  qed
  show ?thesis using tie a b c by blast
qed

section \<open>Properties of the merge\<close>

lemma sorted_by_append:
  "sorted_by c (xs @ ys) \<longleftrightarrow>
     sorted_by c xs \<and> sorted_by c ys \<and> (xs \<noteq> [] \<longrightarrow> ys \<noteq> [] \<longrightarrow> c (last xs) (hd ys) \<le> 0)"
  by (auto simp add: sorted_by_def successively_append_iff)

lemma sorted_by_take: "sorted_by c xs \<Longrightarrow> sorted_by c (take n xs)"
  using sorted_by_append[of c "take n xs" "drop n xs"] by simp

lemma sorted_by_drop: "sorted_by c xs \<Longrightarrow> sorted_by c (drop n xs)"
  using sorted_by_append[of c "take n xs" "drop n xs"] by simp

lemma sorted_by_nth:
  assumes "sorted_by c xs" "Suc i < length xs"
  shows "c (xs ! i) (xs ! Suc i) \<le> 0"
proof -
  have "sorted_by c (take (Suc i) xs @ drop (Suc i) xs)" using assms by simp
  then have "c (last (take (Suc i) xs)) (hd (drop (Suc i) xs)) \<le> 0"
    unfolding sorted_by_append using assms(2) by auto
  moreover have "last (take (Suc i) xs) = xs ! i"
    using assms(2) by (simp add: take_Suc_conv_app_nth)
  moreover have "hd (drop (Suc i) xs) = xs ! Suc i"
    using assms(2) by (simp add: hd_drop_conv_nth)
  ultimately show ?thesis by simp
qed

lemma merge_runner_eq:
  "runner \<le> length (dll dest) \<Longrightarrow> from < length (dll source) \<Longrightarrow>
   merge_runner dest source from runner =
     Inr (runner + length (takeWhile (\<lambda>r. cmp dest r (dll source ! from) \<le> 0)
                             (drop runner (dll dest))))"
proof (induction dest source "from" runner rule: merge_runner.induct)
  case (1 dest source "from" runner)
  show ?case
  proof (cases "runner = length (dll dest)")
    case True
    then show ?thesis by (subst merge_runner.simps) (simp add: DLLEnd_def)
  next
    case False
    with "1.prems" have lt: "runner < length (dll dest)" by simp
    then have dr: "drop runner (dll dest) = dll dest ! runner # drop (Suc runner) (dll dest)"
      by (simp add: Cons_nth_drop_Suc)
    show ?thesis
    proof (cases "cmp dest (dll dest ! runner) (dll source ! from) \<le> 0")
      case True
      have "merge_runner dest source from runner = merge_runner dest source from (Suc runner)"
        using lt True "1.prems"
        by (subst merge_runner.simps) (simp add: DLLEnd_def DLLGetData_def DLLNext_def)
      also have "\<dots> = Inr (Suc runner + length (takeWhile (\<lambda>r. cmp dest r (dll source ! from) \<le> 0)
                             (drop (Suc runner) (dll dest))))"
        using "1.IH"[of "dll dest ! runner" "dll source ! from" "Suc runner"] lt True "1.prems"
        by (simp add: DLLEnd_def DLLGetData_def DLLNext_def)
      finally show ?thesis using True dr by simp
    next
      case False
      then show ?thesis using lt "1.prems" dr
        by (subst merge_runner.simps) (simp add: DLLEnd_def DLLGetData_def DLLNext_def)
    qed
  qed
qed

lemma merge_to_eq:
  "runner < length (dll dest) \<Longrightarrow> to \<le> length (dll source) \<Longrightarrow>
   merge_to dest source runner to =
     Inr (to + length (takeWhile (\<lambda>t. cmp dest t (dll dest ! runner) < 0)
                         (drop to (dll source))))"
proof (induction dest source runner to rule: merge_to.induct)
  case (1 dest source runner to)
  show ?case
  proof (cases "to = length (dll source)")
    case True
    then show ?thesis by (subst merge_to.simps) (simp add: DLLEnd_def)
  next
    case False
    with "1.prems" have lt: "to < length (dll source)" by simp
    then have dr: "drop to (dll source) = dll source ! to # drop (Suc to) (dll source)"
      by (simp add: Cons_nth_drop_Suc)
    show ?thesis
    proof (cases "cmp dest (dll source ! to) (dll dest ! runner) < 0")
      case True
      have "merge_to dest source runner to = merge_to dest source runner (Suc to)"
        using lt True "1.prems"
        by (subst merge_to.simps) (simp add: DLLEnd_def DLLGetData_def DLLNext_def)
      also have "\<dots> = Inr (Suc to + length (takeWhile (\<lambda>t. cmp dest t (dll dest ! runner) < 0)
                         (drop (Suc to) (dll source))))"
        using "1.IH"[of "dll source ! to" "dll dest ! runner" "Suc to"] lt True "1.prems"
        by (simp add: DLLEnd_def DLLGetData_def DLLNext_def)
      finally show ?thesis using True dr by simp
    next
      case False
      then show ?thesis using lt "1.prems" dr
        by (subst merge_to.simps) (simp add: DLLEnd_def DLLGetData_def DLLNext_def)
    qed
  qed
qed

lemma last_take_nth: "0 < n \<Longrightarrow> n \<le> length xs \<Longrightarrow> last (take n xs) = xs ! (n - 1)"
  by (cases n) (simp_all add: take_Suc_conv_app_nth)

lemma nth_spliced_last:
  assumes "0 < t" "t \<le> length S" "r \<le> length D"
  shows "(take r D @ take t S @ drop r D) ! (r + t - 1) = S ! (t - 1)"
proof -
  have "r + t - 1 = length (take r D) + (t - 1)" using assms by simp
  then have "(take r D @ take t S @ drop r D) ! (r + t - 1) = (take t S @ drop r D) ! (t - 1)"
    by (simp only: nth_append_length_plus)
  also have "\<dots> = take t S ! (t - 1)" using assms by (simp add: nth_append)
  also have "\<dots> = S ! (t - 1)" using assms by simp
  finally show ?thesis .
qed

lemma takeWhile_last_holds:
  assumes "0 < length (takeWhile P xs)"
  shows "P (xs ! (length (takeWhile P xs) - 1))"
proof -
  let ?n = "length (takeWhile P xs)"
  have "takeWhile P xs ! (?n - 1) \<in> set (takeWhile P xs)" using assms by simp
  then have "P (takeWhile P xs ! (?n - 1))" by (rule set_takeWhileD[THEN conjunct2])
  moreover have "takeWhile P xs ! (?n - 1) = xs ! (?n - 1)"
    using assms by (intro takeWhile_nth) simp
  ultimately show ?thesis by simp
qed

lemma takeWhile_stops:
  assumes "length (takeWhile P xs) < length xs"
  shows "\<not> P (xs ! length (takeWhile P xs))"
  using assms by (rule nth_length_takeWhile)

lemma merge_loop_correct:
  assumes anti: "sign_antisymmetric c"
  shows "cmp dest = c \<Longrightarrow> runner \<le> length (dll dest) \<Longrightarrow>
     sorted_by c (dll dest) \<Longrightarrow> sorted_by c (dll source) \<Longrightarrow>
     (0 < runner \<longrightarrow> dll source \<noteq> [] \<longrightarrow> c (dll dest ! (runner - 1)) (dll source ! 0) \<le> 0) \<Longrightarrow>
     \<exists>d. merge_loop dest source 0 runner 0 = Some (Inr (dest\<lparr>dll := d\<rparr>, source\<lparr>dll := []\<rparr>)) \<and>
         mset d = mset (dll dest) + mset (dll source) \<and> sorted_by c d"
proof (induction "length (dll source)" arbitrary: dest source runner rule: less_induct)
  case less
  let ?D = "dll dest" and ?S = "dll source"
  show ?case
  proof (cases "?S = []")
    case True
    have "source\<lparr>dll := []\<rparr> = source" using True by simp
    moreover have "dest\<lparr>dll := ?D\<rparr> = dest" by simp
    moreover have "merge_loop dest source 0 runner 0 = Some (Inr (dest, source))"
      using True by (subst merge_loop.simps) (simp add: DLLEnd_def)
    ultimately show ?thesis using True less.prems
      by (intro exI[of _ ?D]) simp
  next
    case False
    then have S0: "0 < length ?S" by simp
    let ?P = "\<lambda>r. c r (?S ! 0) \<le> 0"
    let ?k = "length (takeWhile ?P (drop runner ?D))"
    let ?r = "runner + ?k"
    have run: "merge_runner dest source 0 runner = Inr ?r"
      using merge_runner_eq[of runner dest 0 source] less.prems S0 by simp
    have kle: "?k \<le> length ?D - runner"
      using length_takeWhile_le[of ?P "drop runner ?D"] by simp
    have rle: "?r \<le> length ?D" using kle less.prems by simp
    have before: "0 < ?r \<Longrightarrow> c (?D ! (?r - 1)) (?S ! 0) \<le> 0"
    proof (cases "?k = 0")
      case True
      assume "0 < ?r"
      with True less.prems False show ?thesis by simp
    next
      case False
      then have "?P (drop runner ?D ! (?k - 1))"
        using takeWhile_last_holds[of ?P "drop runner ?D"] by simp
      moreover have "runner + (?k - 1) = ?r - 1" using False by arith
      then have "drop runner ?D ! (?k - 1) = ?D ! (?r - 1)"
        using less.prems by simp
      ultimately show ?thesis by simp
    qed
    show ?thesis
    proof (cases "?r = length ?D")
      case True
      have sp: "DLLSplice ?D ?r ?S 0 (length ?S) = Inr (?D @ ?S, [])"
        using True by (simp add: DLLSplice_def)
      have step: "merge_loop dest source 0 runner 0 =
                    merge_loop (dest\<lparr>dll := ?D @ ?S\<rparr>) (source\<lparr>dll := []\<rparr>) 0
                       (splice_where ?r 0 (length ?S)) (splice_to 0 (length ?S))"
        using False True sp
        by (subst merge_loop.simps) (simp add: run DLLEnd_def DLLBegin_def)
      also have "\<dots> = Some (Inr (dest\<lparr>dll := ?D @ ?S\<rparr>, source\<lparr>dll := []\<rparr>))"
        by (subst merge_loop.simps) (simp add: DLLEnd_def)
      finally have res: "merge_loop dest source 0 runner 0 =
                           Some (Inr (dest\<lparr>dll := ?D @ ?S\<rparr>, source\<lparr>dll := []\<rparr>))" .
      have "sorted_by c (?D @ ?S)"
      proof -
        have "?D \<noteq> [] \<Longrightarrow> c (last ?D) (hd ?S) \<le> 0"
        proof -
          assume ne: "?D \<noteq> []"
          then have "0 < ?r" using True by simp
          from before[OF this] show ?thesis
            using True ne False by (simp add: last_conv_nth hd_conv_nth)
        qed
        then show ?thesis using less.prems by (auto simp: sorted_by_append)
      qed
      with res show ?thesis by (intro exI[of _ "?D @ ?S"]) simp
    next
      case neq: False
      with rle have rlt: "?r < length ?D" by simp
      have "\<not> ?P (drop runner ?D ! ?k)"
        using takeWhile_stops[of ?P "drop runner ?D"] rlt less.prems by simp
      moreover have "drop runner ?D ! ?k = ?D ! ?r" using rlt less.prems by simp
      ultimately have pos: "0 < c (?D ! ?r) (?S ! 0)" by simp
      with anti have neg: "c (?S ! 0) (?D ! ?r) < 0" by (simp add: sign_antisymmetric_def)
      let ?Q = "\<lambda>t. c t (?D ! ?r) < 0"
      let ?t = "length (takeWhile ?Q ?S)"
      have to: "merge_to dest source ?r 0 = Inr ?t"
        using merge_to_eq[of ?r dest 0 source] rlt less.prems by simp
      have tle: "?t \<le> length ?S" by (rule length_takeWhile_le)
      have tpos: "0 < ?t"
      proof -
        have "?S = ?S ! 0 # tl ?S" using False by (cases ?S) simp_all
        then have "takeWhile ?Q ?S = ?S ! 0 # takeWhile ?Q (tl ?S)"
          using neg by (metis takeWhile.simps(2))
        then show ?thesis by simp
      qed
      let ?D' = "take ?r ?D @ take ?t ?S @ drop ?r ?D"
      let ?S' = "drop ?t ?S"
      have sp: "DLLSplice ?D ?r ?S 0 ?t = Inr (?D', ?S')"
        using rle tle by (simp add: DLLSplice_def)
      have step: "merge_loop dest source 0 runner 0 =
                    merge_loop (dest\<lparr>dll := ?D'\<rparr>) (source\<lparr>dll := ?S'\<rparr>) 0 (?r + ?t) 0"
        using False neq sp
        by (subst merge_loop.simps)
           (simp add: run to DLLEnd_def DLLBegin_def splice_where_def splice_to_def)
      have lastQ: "c (?S ! (?t - 1)) (?D ! ?r) < 0"
        using takeWhile_last_holds[of ?Q ?S] tpos by simp
      have sD': "sorted_by c ?D'"
      proof -
        have a: "sorted_by c (take ?r ?D)" "sorted_by c (take ?t ?S)" "sorted_by c (drop ?r ?D)"
          using less.prems by (simp_all add: sorted_by_take sorted_by_drop)
        have b: "take ?t ?S \<noteq> []" "drop ?r ?D \<noteq> []" using tpos False rlt by auto
        have j1: "take ?r ?D \<noteq> [] \<Longrightarrow> c (last (take ?r ?D)) (hd (take ?t ?S)) \<le> 0"
        proof -
          assume "take ?r ?D \<noteq> []"
          then have r0: "0 < ?r" by auto
          have "last (take ?r ?D) = ?D ! (?r - 1)"
            using r0 rle by (rule last_take_nth)
          moreover have "hd (take ?t ?S) = ?S ! 0" using tpos False by (simp add: hd_conv_nth)
          ultimately show ?thesis using before[OF r0] by simp
        qed
        have j2: "c (last (take ?t ?S)) (hd (drop ?r ?D)) \<le> 0"
        proof -
          have "last (take ?t ?S) = ?S ! (?t - 1)"
            using tpos tle by (rule last_take_nth)
          moreover have "hd (drop ?r ?D) = ?D ! ?r" using rlt by (simp add: hd_drop_conv_nth)
          ultimately show ?thesis using lastQ by simp
        qed
        have "sorted_by c (take ?t ?S @ drop ?r ?D)"
          using a b j2 by (simp add: sorted_by_append)
        moreover have "hd (take ?t ?S @ drop ?r ?D) = hd (take ?t ?S)" using b by simp
        ultimately show ?thesis using a j1 b by (simp add: sorted_by_append)
      qed
      have inv: "0 < ?r + ?t \<longrightarrow> ?S' \<noteq> [] \<longrightarrow> c (?D' ! (?r + ?t - 1)) (?S' ! 0) \<le> 0"
      proof (intro impI)
        assume "?S' \<noteq> []"
        then have tlt: "?t < length ?S" by simp
        have "?D' ! (?r + ?t - 1) = ?S ! (?t - 1)"
          using tpos tle rle by (rule nth_spliced_last)
        moreover have "?S' ! 0 = ?S ! ?t" using tlt by simp
        moreover have "c (?S ! (?t - 1)) (?S ! Suc (?t - 1)) \<le> 0"
          using sorted_by_nth[of c ?S "?t - 1"] less.prems tpos tlt by simp
        ultimately show "c (?D' ! (?r + ?t - 1)) (?S' ! 0) \<le> 0" using tpos by simp
      qed
      have "\<exists>d. merge_loop (dest\<lparr>dll := ?D'\<rparr>) (source\<lparr>dll := ?S'\<rparr>) 0 (?r + ?t) 0 =
                 Some (Inr (dest\<lparr>dll := ?D'\<rparr>\<lparr>dll := d\<rparr>, source\<lparr>dll := ?S'\<rparr>\<lparr>dll := []\<rparr>)) \<and>
               mset d = mset (dll (dest\<lparr>dll := ?D'\<rparr>)) + mset (dll (source\<lparr>dll := ?S'\<rparr>)) \<and>
               sorted_by c d"
      proof (rule less.hyps)
        show "length (dll (source\<lparr>dll := ?S'\<rparr>)) < length ?S" using tpos False by simp
        show "cmp (dest\<lparr>dll := ?D'\<rparr>) = c" using less.prems by simp
        show "?r + ?t \<le> length (dll (dest\<lparr>dll := ?D'\<rparr>))" using rle tle by simp
        show "sorted_by c (dll (dest\<lparr>dll := ?D'\<rparr>))" using sD' by simp
        show "sorted_by c (dll (source\<lparr>dll := ?S'\<rparr>))"
          using less.prems by (simp add: sorted_by_drop)
        show "0 < ?r + ?t \<longrightarrow> dll (source\<lparr>dll := ?S'\<rparr>) \<noteq> [] \<longrightarrow>
                c (dll (dest\<lparr>dll := ?D'\<rparr>) ! (?r + ?t - 1)) (dll (source\<lparr>dll := ?S'\<rparr>) ! 0) \<le> 0"
          using inv by simp
      qed
      then obtain d where
        r: "merge_loop (dest\<lparr>dll := ?D'\<rparr>) (source\<lparr>dll := ?S'\<rparr>) 0 (?r + ?t) 0 =
              Some (Inr (dest\<lparr>dll := d\<rparr>, source\<lparr>dll := []\<rparr>))" and
        m: "mset d = mset ?D' + mset ?S'" and s: "sorted_by c d"
        by auto
      have "mset ?D' + mset ?S' = mset (take ?r ?D @ drop ?r ?D) + mset (take ?t ?S @ drop ?t ?S)"
        by (simp only: mset_append) (simp add: ac_simps)
      then have "mset ?D' + mset ?S' = mset ?D + mset ?S" by simp
      with step r m s show ?thesis by (intro exI[of _ d]) simp
    qed
  qed
qed

section \<open>The sort invariant\<close>

lemma sorted_by_insert:
  assumes anti: "sign_antisymmetric c" and s: "sorted_by c xs"
  shows "sorted_by c (takeWhile (\<lambda>y. c y x < 0) xs @ x # dropWhile (\<lambda>y. c y x < 0) xs)"
proof -
  let ?P = "\<lambda>y. c y x < 0"
  let ?A = "takeWhile ?P xs" and ?B = "dropWhile ?P xs"
  have sA: "sorted_by c ?A" by (subst takeWhile_eq_take) (rule sorted_by_take[OF s])
  have sB: "sorted_by c ?B" by (subst dropWhile_eq_drop) (rule sorted_by_drop[OF s])
  have sx: "sorted_by c [x]" by (simp add: sorted_by_def)
  have a: "?A \<noteq> [] \<Longrightarrow> c (last ?A) x \<le> 0"
  proof -
    assume "?A \<noteq> []"
    then have "last ?A \<in> set ?A" by simp
    then have "?P (last ?A)" by (rule set_takeWhileD[THEN conjunct2])
    then show ?thesis by simp
  qed
  have b: "?B \<noteq> [] \<Longrightarrow> c x (hd ?B) \<le> 0"
  proof -
    assume "?B \<noteq> []"
    then have "\<not> ?P (hd ?B)" by (rule hd_dropWhile)
    then have "\<not> 0 < c x (hd ?B)" using anti by (auto simp: sign_antisymmetric_def)
    then show ?thesis by simp
  qed
  have "sorted_by c ([x] @ ?B)"
    unfolding sorted_by_append using sx sB b by simp
  then have "sorted_by c (x # ?B)" by simp
  then show ?thesis unfolding sorted_by_append using sA a by simp
qed

lemma sorted_by_remove:
  assumes tr: "transitive_sign c" and s: "sorted_by c xs" and i: "i < length xs"
  shows "sorted_by c (take i xs @ drop (Suc i) xs)"
proof -
  have j: "take i xs \<noteq> [] \<Longrightarrow> drop (Suc i) xs \<noteq> [] \<Longrightarrow>
             c (last (take i xs)) (hd (drop (Suc i) xs)) \<le> 0"
  proof -
    assume "take i xs \<noteq> []" "drop (Suc i) xs \<noteq> []"
    then have i0: "0 < i" and i1: "Suc i < length xs" by auto
    have l: "last (take i xs) = xs ! (i - 1)" using i0 i by (intro last_take_nth) simp_all
    have h: "hd (drop (Suc i) xs) = xs ! Suc i" using i1 by (simp add: hd_drop_conv_nth)
    have "c (xs ! (i - 1)) (xs ! Suc (i - 1)) \<le> 0"
      using sorted_by_nth[OF s, of "i - 1"] i0 i by simp
    then have "c (xs ! (i - 1)) (xs ! i) \<le> 0" using i0 by simp
    moreover have "c (xs ! i) (xs ! Suc i) \<le> 0" using sorted_by_nth[OF s i1] .
    ultimately have "c (xs ! (i - 1)) (xs ! Suc i) \<le> 0"
      using tr unfolding transitive_sign_def by blast
    with l h show ?thesis by simp
  qed
  show ?thesis using s j by (simp add: sorted_by_append sorted_by_take sorted_by_drop)
qed

lemma all_sorted_update:
  "all_sorted c ls \<Longrightarrow> cmp l = c \<Longrightarrow> sorted_by c (dll l) \<Longrightarrow> all_sorted c (ls[h := l])"
  unfolding all_sorted_def list_all_iff using set_update_subset_insert[of ls h l] by auto

lemma all_sorted_nth:
  "all_sorted c ls \<Longrightarrow> h < length ls \<Longrightarrow> cmp (ls ! h) = c \<and> sorted_by c (dll (ls ! h))"
  unfolding all_sorted_def list_all_iff by simp

lemma SortedListMerge_correct:
  assumes "sign_antisymmetric (cmp dest)" "sorted_by (cmp dest) (dll dest)"
    "sorted_by (cmp dest) (dll source)"
  shows "\<exists>d. SortedListMerge dest source = Some (Inr (dest\<lparr>dll := d\<rparr>, source\<lparr>dll := []\<rparr>)) \<and>
             mset d = mset (dll dest) + mset (dll source) \<and> sorted_by (cmp dest) d"
  unfolding SortedListMerge_def Let_def DLLBegin_def
  using merge_loop_correct[OF assms(1), of dest 0 source] assms(2,3) by simp

lemma apply_operation_sorted:
  assumes anti: "sign_antisymmetric c" and tr: "transitive_sign c"
    and inv: "all_sorted c ls" and ap: "apply_operation ls x = Some ls'"
  shows "all_sorted c ls'"
proof (cases x)
  case (Insert h data alloc_ok)
  with ap have h: "h < length ls" by (simp split: if_splits)
  note hs = all_sorted_nth[OF inv h]
  show ?thesis
  proof (cases alloc_ok)
    case True
    with ap Insert h have "ls' = ls[h := (ls ! h)\<lparr>dll := takeWhile (\<lambda>y. cmp (ls ! h) y data < 0) (dll (ls ! h)) @ data #
                       dropWhile (\<lambda>y. cmp (ls ! h) y data < 0) (dll (ls ! h))\<rparr>]"
      by (simp add: SortedListInsert_ok)
    then show ?thesis using hs sorted_by_insert[OF anti, of "dll (ls ! h)" data] inv
      by (simp add: all_sorted_update)
  next
    case False
    with ap Insert h have "ls' = ls[h := ls ! h]" by (simp add: SortedListInsert_failed)
    then show ?thesis using inv by simp
  qed
next
  case (Remove h pos)
  with ap have h: "h < length ls" by (simp split: if_splits)
  note hs = all_sorted_nth[OF inv h]
  from ap Remove h have p: "pos < length (dll (ls ! h))"
    by (simp add: SortedListRemove_def DLLRemove_def split: if_splits)
  with ap Remove h have "ls' = ls[h := (ls ! h)\<lparr>dll := take pos (dll (ls ! h)) @ drop (Suc pos) (dll (ls ! h))\<rparr>]"
    by (simp add: SortedListRemove_def DLLRemove_def)
  then show ?thesis using hs sorted_by_remove[OF tr _ p] inv
    by (simp add: all_sorted_update)
next
  case (PopFront h)
  with ap have h: "h < length ls" by (simp split: if_splits)
  note hs = all_sorted_nth[OF inv h]
  have "fst (SortedListPopFront (ls ! h)) = (ls ! h)\<lparr>dll := drop 1 (dll (ls ! h))\<rparr>"
    by (cases "dll (ls ! h)") (simp_all add: SortedListPopFront_def DLLPopFront_def)
  with ap PopFront h have "ls' = ls[h := (ls ! h)\<lparr>dll := drop 1 (dll (ls ! h))\<rparr>]" by simp
  then show ?thesis using hs inv sorted_by_drop[of c "dll (ls ! h)" 1]
    by (simp add: all_sorted_update)
next
  case (PopBack h)
  with ap have h: "h < length ls" by (simp split: if_splits)
  note hs = all_sorted_nth[OF inv h]
  have "fst (SortedListPopBack (ls ! h)) = (ls ! h)\<lparr>dll := butlast (dll (ls ! h))\<rparr>"
    by (cases "dll (ls ! h) = []") (simp_all add: SortedListPopBack_def DLLPopBack_def)
  with ap PopBack h have "ls' = ls[h := (ls ! h)\<lparr>dll := butlast (dll (ls ! h))\<rparr>]" by simp
  then show ?thesis using hs inv sorted_by_take[of c "dll (ls ! h)" "length (dll (ls ! h)) - 1"]
    by (simp add: all_sorted_update butlast_conv_take)
next
  case (Merge hdest hsource)
  with ap have h: "hdest < length ls" "hsource < length ls" "hdest \<noteq> hsource"
    by (simp_all split: if_splits)
  note hd = all_sorted_nth[OF inv h(1)] and hs = all_sorted_nth[OF inv h(2)]
  from SortedListMerge_correct[of "ls ! hdest" "ls ! hsource"] anti hd hs
  obtain d where m: "SortedListMerge (ls ! hdest) (ls ! hsource) =
      Some (Inr ((ls ! hdest)\<lparr>dll := d\<rparr>, (ls ! hsource)\<lparr>dll := []\<rparr>))" and sd: "sorted_by c d"
    by auto
  with ap Merge h have "ls' = ls[hdest := (ls ! hdest)\<lparr>dll := d\<rparr>, hsource := (ls ! hsource)\<lparr>dll := []\<rparr>]"
    by simp
  moreover have "sorted_by c []" by (simp add: sorted_by_def)
  ultimately show ?thesis using hd hs sd inv
    by (simp add: all_sorted_update)
qed

text \<open>
  C1, as amended. The claim asks for a comparator result that is zero or positive on
  every two neighbours; the code keeps it zero or negative. With a comparator that is
  antisymmetric in sign and transitive, and lists that all use it, every sequence of
  \<open>Insert\<close>, \<open>Remove\<close>, \<open>PopFront\<close>, \<open>PopBack\<close> and \<open>Merge\<close> calls that completes leaves
  every list sorted: the comparator is zero or negative on each payload and its successor.
\<close>

theorem sort_invariant:
  assumes "sign_antisymmetric c" "transitive_sign c" "all_sorted c ls"
    "run_operations ls xs = Some ls'"
  shows "all_sorted c ls'"
  using assms(3,4)
proof (induction xs arbitrary: ls)
  case Nil
  then show ?case by simp
next
  case (Cons x xs)
  then obtain ls1 where a: "apply_operation ls x = Some ls1" and r: "run_operations ls1 xs = Some ls'"
    by (auto split: option.splits)
  from apply_operation_sorted[OF assms(1,2) Cons.prems(1) a] have "all_sorted c ls1" .
  from Cons.IH[OF this r] show ?case .
qed

lemma num_ascending_antisymmetric: "sign_antisymmetric num_ascending"
  by (simp add: sign_antisymmetric_def num_ascending_def)

lemma num_ascending_transitive: "transitive_sign num_ascending"
  by (simp add: transitive_sign_def num_ascending_def)

lemma run_example:
  "map_option (map dll) (run_operations [\<lparr>self = 0, dll = [], cmp = num_ascending\<rparr>, \<lparr>self = 1, dll = [2, 4], cmp = num_ascending\<rparr>]
          [Insert 0 3 True, Insert 0 1 True, Insert 0 5 False, Merge 0 1, Remove 0 1, PopFront 0, PopBack 0])
   = Some [[3], []]"
  by code_simp

text \<open>
  Two lists under the numeric comparator and a sequence with every kind of call, one
  insertion with a failed allocation among them.
\<close>

theorem sort_invariant_witness:
  "sign_antisymmetric num_ascending \<and> transitive_sign num_ascending \<and>
   all_sorted num_ascending
     [\<lparr>self = 0, dll = [], cmp = num_ascending\<rparr>, \<lparr>self = 1, dll = [2, 4], cmp = num_ascending\<rparr>] \<and>
   (\<exists>ls'. run_operations
       [\<lparr>self = 0, dll = [], cmp = num_ascending\<rparr>, \<lparr>self = 1, dll = [2, 4], cmp = num_ascending\<rparr>]
       [Insert 0 3 True, Insert 0 1 True, Insert 0 5 False, Merge 0 1, Remove 0 1, PopFront 0, PopBack 0]
       = Some ls' \<and> map dll ls' = [[3], []] \<and> all_sorted num_ascending ls')"
proof -
  let ?ls = "[\<lparr>self = 0, dll = [], cmp = num_ascending\<rparr>, \<lparr>self = 1, dll = [2, 4], cmp = num_ascending\<rparr>]"
  let ?xs = "[Insert 0 3 True, Insert 0 1 True, Insert 0 5 False, Merge 0 1, Remove 0 1, PopFront 0, PopBack 0]"
  have s: "all_sorted num_ascending ?ls"
    by (simp add: all_sorted_def sorted_by_def num_ascending_def)
  from run_example obtain ls' where r: "run_operations ?ls ?xs = Some ls'" and d: "map dll ls' = [[3], []]"
    by (cases "run_operations ?ls ?xs") auto
  from sort_invariant[OF num_ascending_antisymmetric num_ascending_transitive s r]
  have a: "all_sorted num_ascending ls'" .
  show ?thesis
    by (intro conjI exI[of _ ls'] num_ascending_antisymmetric num_ascending_transitive s r d a)
qed

text \<open>
  C1 as stated fails: after inserting 1 and then 2 under the numeric ascending comparator
  the list is 1, 2, and the comparator on this pair of neighbours is negative. Under the
  descending comparator the list is 2, 1, and the comparator on the pair is negative again.
\<close>

theorem sort_invariant_counterexample:
  "run_operations [\<lparr>self = 0, dll = [], cmp = num_ascending\<rparr>] [Insert 0 1 True, Insert 0 2 True]
     = Some [\<lparr>self = 0, dll = [1, 2], cmp = num_ascending\<rparr>] \<and>
   \<not> successively (\<lambda>a b. 0 \<le> num_ascending a b) [1, 2] \<and>
   run_operations [\<lparr>self = 0, dll = [], cmp = num_descending\<rparr>] [Insert 0 1 True, Insert 0 2 True]
     = Some [\<lparr>self = 0, dll = [2, 1], cmp = num_descending\<rparr>] \<and>
   \<not> successively (\<lambda>a b. 0 \<le> num_descending a b) [2, 1]"
  by (simp add: SortedListInsert_ok num_ascending_def num_descending_def)

section \<open>Merge correctness\<close>

text \<open>
  C3. For two lists sorted by the comparator of \<open>dest\<close>, \<open>SortedListMerge\<close> returns;
  afterwards \<open>source\<close> is empty, \<open>dest\<close> has as many payloads as both had together, is
  sorted, and holds the payloads of both as a multiset. The comparator is one in the sense
  of \<open>sorted_list.h\<close>: antisymmetric in sign.
\<close>

theorem merge_correct:
  assumes "sign_antisymmetric (cmp dest)"
    and "sorted_by (cmp dest) (dll dest)"
    and "sorted_by (cmp dest) (dll source)"
  shows "\<exists>l1 l2. SortedListMerge dest source = Some (Inr (l1, l2)) \<and>
           SortedListIsEmpty l2 \<noteq> 0 \<and> dll l2 = [] \<and>
           SortedListCount l1 = SortedListCount dest + SortedListCount source \<and>
           sorted_by (cmp dest) (dll l1) \<and> cmp l1 = cmp dest \<and>
           mset (dll l1) = mset (dll dest) + mset (dll source)"
proof -
  from SortedListMerge_correct[OF assms] obtain d where
    m: "SortedListMerge dest source = Some (Inr (dest\<lparr>dll := d\<rparr>, source\<lparr>dll := []\<rparr>))" and
    ms: "mset d = mset (dll dest) + mset (dll source)" and s: "sorted_by (cmp dest) d"
    by blast
  from ms have "size (mset d) = size (mset (dll dest) + mset (dll source))" by simp
  then have len: "length d = length (dll dest) + length (dll source)" by simp
  show ?thesis
    using m ms s len
    by (intro exI[of _ "dest\<lparr>dll := d\<rparr>"] exI[of _ "source\<lparr>dll := []\<rparr>"])
       (simp add: SortedListIsEmpty_def DLLIsEmpty_def SortedListCount_def DLLCount_def)
qed

lemma merge_example:
  "(case SortedListMerge \<lparr>self = 1, dll = [1, 3, 5], cmp = num_ascending\<rparr>
                         \<lparr>self = 2, dll = [0, 2, 3, 4, 7], cmp = num_ascending\<rparr> of
      Some (Inr (l1, l2)) \<Rightarrow> dll l1 = [0, 1, 2, 3, 3, 4, 5, 7] \<and> dll l2 = []
    | _ \<Rightarrow> False)"
  by code_simp

text \<open>The lists 1, 3, 5 and 0, 2, 3, 4, 7 under the numeric comparator.\<close>

theorem merge_correct_witness:
  "sign_antisymmetric num_ascending \<and>
   sorted_by num_ascending [1, 3, 5] \<and>
   sorted_by num_ascending [0, 2, 3, 4, 7] \<and>
   (\<exists>l1 l2. SortedListMerge \<lparr>self = 1, dll = [1, 3, 5], cmp = num_ascending\<rparr>
                             \<lparr>self = 2, dll = [0, 2, 3, 4, 7], cmp = num_ascending\<rparr>
               = Some (Inr (l1, l2)) \<and>
            SortedListIsEmpty l2 \<noteq> 0 \<and> dll l2 = [] \<and> SortedListCount l1 = 8 \<and>
            sorted_by num_ascending (dll l1) \<and>
            mset (dll l1) = mset [1, 3, 5] + mset [0, 2, 3, 4, 7] \<and>
            dll l1 = [0, 1, 2, 3, 3, 4, 5, 7])"
proof -
  let ?d = "\<lparr>self = 1, dll = [1, 3, 5], cmp = num_ascending\<rparr>"
  let ?s = "\<lparr>self = 2, dll = [0, 2, 3, 4, 7], cmp = num_ascending\<rparr>"
  have a: "sign_antisymmetric num_ascending"
    by (simp add: sign_antisymmetric_def num_ascending_def)
  have b: "sorted_by num_ascending [1, 3, 5]" by (simp add: sorted_by_def num_ascending_def)
  have c: "sorted_by num_ascending [0, 2, 3, 4, 7]" by (simp add: sorted_by_def num_ascending_def)
  from merge_correct[of ?d ?s] a b c obtain l1 l2 where
    m: "SortedListMerge ?d ?s = Some (Inr (l1, l2))" and
    e: "SortedListIsEmpty l2 \<noteq> 0" "dll l2 = []" and
    n: "SortedListCount l1 = SortedListCount ?d + SortedListCount ?s" and
    s: "sorted_by num_ascending (dll l1)" and
    ms: "mset (dll l1) = mset (dll ?d) + mset (dll ?s)"
    by auto
  from merge_example m have v: "dll l1 = [0, 1, 2, 3, 3, 4, 5, 7]" by simp
  have n': "SortedListCount l1 = 8" using n by (simp add: SortedListCount_def DLLCount_def)
  have ms': "mset (dll l1) = mset [1, 3, 5] + mset [0, 2, 3, 4, 7]" using ms by simp
  show ?thesis by (intro conjI exI[of _ l1] exI[of _ l2] a b c m e n' s ms' v)
qed

section \<open>The priority queue adapter\<close>

lemma PriorityQueueEnqueue_ok:
  "PriorityQueueEnqueue queue data True =
     Inr (queue\<lparr>sorted_list := (sorted_list queue)\<lparr>dll :=
            takeWhile (\<lambda>y. cmp (sorted_list queue) y data < 0) (dll (sorted_list queue)) @ data #
            dropWhile (\<lambda>y. cmp (sorted_list queue) y data < 0) (dll (sorted_list queue))\<rparr>\<rparr>, 0)"
proof -
  have "length (takeWhile (\<lambda>y. cmp (sorted_list queue) y data < 0) (dll (sorted_list queue)))
          \<le> length (dll (sorted_list queue))"
    by (rule length_takeWhile_le)
  then show ?thesis
    by (simp add: PriorityQueueEnqueue_def SortedListInsert_ok SortedListIsEqual_def
        SortedListEnd_def DLLEnd_def)
qed

text \<open>
  C4. The scenario of the spec under the numeric ascending comparator: 5, 1 and 3 are
  enqueued into the empty queue, each with status 0; \<open>PriorityQueuePeek\<close> returns 1; the
  dequeues return 1, 3 and 5 in this order; \<open>PriorityQueueIsEmpty\<close> is zero before and
  between the dequeues and 1 after the third.
\<close>

theorem priority_queue_scenario:
  "PriorityQueueCreate True (Some 0) True num_ascending = Some (queue_of []) \<and>
   PriorityQueueIsEmpty (queue_of []) = 1 \<and>
   PriorityQueueEnqueue (queue_of []) 5 True = Inr (queue_of [5], 0) \<and>
   PriorityQueueEnqueue (queue_of [5]) 1 True = Inr (queue_of [1, 5], 0) \<and>
   PriorityQueueEnqueue (queue_of [1, 5]) 3 True = Inr (queue_of [1, 3, 5], 0) \<and>
   PriorityQueuePeek (queue_of [1, 3, 5]) = Inr 1 \<and>
   PriorityQueueIsEmpty (queue_of [1, 3, 5]) = 0 \<and>
   PriorityQueueDequeue (queue_of [1, 3, 5]) = (queue_of [3, 5], Payload 1) \<and>
   PriorityQueueIsEmpty (queue_of [3, 5]) = 0 \<and>
   PriorityQueueDequeue (queue_of [3, 5]) = (queue_of [5], Payload 3) \<and>
   PriorityQueueIsEmpty (queue_of [5]) = 0 \<and>
   PriorityQueueDequeue (queue_of [5]) = (queue_of [], Payload 5) \<and>
   PriorityQueueIsEmpty (queue_of []) = 1"
  by (simp add: PriorityQueueCreate_def SortedListCreate_def queue_of_def PriorityQueueEnqueue_ok
      PriorityQueuePeek_def SortedListGetData_def SortedListBegin_def DLLBegin_def DLLGetData_def
      PriorityQueueIsEmpty_def SortedListIsEmpty_def DLLIsEmpty_def
      PriorityQueueDequeue_def SortedListPopFront_def DLLPopFront_def num_ascending_def)

text \<open>
  C5. \<open>SortedListInsert\<close> returns the position of the new payload when the engine's
  allocation succeeds, and the end position of the unchanged list when it fails.
  \<open>PriorityQueueEnqueue\<close> returns 0 exactly when the returned position differs from the
  end position of the list, and a value that is not zero exactly when it equals it.
\<close>

theorem enqueue_status:
  "\<exists>l it status.
     SortedListInsert (sorted_list queue) data alloc_ok = Inr (l, it) \<and>
     PriorityQueueEnqueue queue data alloc_ok = Inr (queue\<lparr>sorted_list := l\<rparr>, status) \<and>
     (status = 0) = (iterator it \<noteq> iterator (SortedListEnd l)) \<and>
     (status \<noteq> 0) = (iterator it = iterator (SortedListEnd l)) \<and>
     (status = 0) = alloc_ok \<and>
     (if alloc_ok
      then iterator it < length (dll l) \<and> dll l ! iterator it = data \<and>
           SortedListCount l = Suc (SortedListCount (sorted_list queue))
      else l = sorted_list queue \<and> it = SortedListEnd (sorted_list queue))"
proof (cases alloc_ok)
  case True
  let ?P = "\<lambda>y. cmp (sorted_list queue) y data < 0"
  let ?xs = "dll (sorted_list queue)"
  let ?n = "length (takeWhile ?P ?xs)"
  let ?l = "(sorted_list queue)\<lparr>dll := takeWhile ?P ?xs @ data # dropWhile ?P ?xs\<rparr>"
  let ?it = "\<lparr>iterator = ?n, list = self (sorted_list queue)\<rparr>"
  have i: "SortedListInsert (sorted_list queue) data alloc_ok = Inr (?l, ?it)"
    using True by (simp add: SortedListInsert_ok)
  have le: "?n \<le> length ?xs" by (rule length_takeWhile_le)
  have "length (takeWhile ?P ?xs) + length (dropWhile ?P ?xs) = length ?xs"
    by (metis length_append takeWhile_dropWhile_id)
  then have len: "length (takeWhile ?P ?xs @ data # dropWhile ?P ?xs) = Suc (length ?xs)"
    by simp
  have e: "PriorityQueueEnqueue queue data alloc_ok = Inr (queue\<lparr>sorted_list := ?l\<rparr>, 0)"
    using True by (simp add: PriorityQueueEnqueue_ok)
  have nth: "(takeWhile ?P ?xs @ data # dropWhile ?P ?xs) ! ?n = data"
    by (simp add: nth_append)
  show ?thesis
    using True le len nth i e
    by (intro exI[of _ ?l] exI[of _ ?it] exI[of _ 0])
       (simp add: SortedListEnd_def DLLEnd_def SortedListCount_def DLLCount_def del: length_append)
next
  case False
  let ?l = "sorted_list queue"
  have i: "SortedListInsert ?l data alloc_ok = Inr (?l, SortedListEnd ?l)"
    using False by (simp add: SortedListInsert_failed)
  have e: "PriorityQueueEnqueue queue data alloc_ok = Inr (queue\<lparr>sorted_list := ?l\<rparr>, 1)"
    using False by (simp add: PriorityQueueEnqueue_def SortedListInsert_failed SortedListIsEqual_def)
  show ?thesis
    using False i e
    by (intro exI[of _ ?l] exI[of _ "SortedListEnd ?l"] exI[of _ 1]) simp
qed

text \<open>
  C7. \<open>PriorityQueueDequeue\<close> on an empty queue, which is \<open>SortedListPopFront\<close> on its
  list, returns no value and leaves the queue as it is.
\<close>

theorem dequeue_empty:
  assumes "PriorityQueueIsEmpty queue \<noteq> 0"
  shows "PriorityQueueDequeue queue = (queue, Null) \<and>
         SortedListPopFront (sorted_list queue) = (sorted_list queue, Null)"
proof -
  from assms have "dll (sorted_list queue) = []"
    by (simp add: PriorityQueueIsEmpty_def SortedListIsEmpty_def DLLIsEmpty_def split: if_splits)
  then show ?thesis
    by (simp add: PriorityQueueDequeue_def SortedListPopFront_def DLLPopFront_def)
qed

text \<open>The empty queue of the scenarios.\<close>

theorem dequeue_empty_witness:
  "PriorityQueueIsEmpty (queue_of []) \<noteq> 0 \<and>
   PriorityQueueDequeue (queue_of []) = (queue_of [], Null)"
proof -
  have e: "PriorityQueueIsEmpty (queue_of []) \<noteq> 0"
    by (simp add: PriorityQueueIsEmpty_def SortedListIsEmpty_def DLLIsEmpty_def queue_of_def)
  from dequeue_empty[OF e] e show ?thesis by simp
qed

section \<open>Erasing from the queue\<close>

lemma findif_scan_eq:
  "iterator runner \<le> length (dll l) \<Longrightarrow> iterator to = length (dll l) \<Longrightarrow>
   findif_scan l to match parameter runner =
     Inr (if iterator runner +
             length (takeWhile (\<lambda>x. match x parameter = 0) (drop (iterator runner) (dll l)))
               = length (dll l)
          then to
          else runner\<lparr>iterator := iterator runner +
             length (takeWhile (\<lambda>x. match x parameter = 0) (drop (iterator runner) (dll l)))\<rparr>)"
proof (induction l to match parameter runner rule: findif_scan.induct)
  case (1 l to match parameter runner)
  show ?case
  proof (cases "iterator runner = length (dll l)")
    case True
    with "1.prems" show ?thesis by (subst findif_scan.simps) simp
  next
    case False
    with "1.prems" have lt: "iterator runner < length (dll l)" by simp
    then have dr: "drop (iterator runner) (dll l) =
                     dll l ! iterator runner # drop (Suc (iterator runner)) (dll l)"
      by (simp add: Cons_nth_drop_Suc)
    show ?thesis
    proof (cases "match (dll l ! iterator runner) parameter = 0")
      case True
      have "findif_scan l to match parameter runner =
              findif_scan l to match parameter (runner\<lparr>iterator := Suc (iterator runner)\<rparr>)"
        using lt True "1.prems"
        by (subst findif_scan.simps)
           (simp add: SortedListGetData_def SortedListNext_def DLLGetData_def DLLNext_def)
      also have "\<dots> = Inr (if Suc (iterator runner) +
             length (takeWhile (\<lambda>x. match x parameter = 0) (drop (Suc (iterator runner)) (dll l)))
               = length (dll l)
          then to
          else runner\<lparr>iterator := Suc (iterator runner) +
             length (takeWhile (\<lambda>x. match x parameter = 0) (drop (Suc (iterator runner)) (dll l)))\<rparr>)"
        using "1.IH"[of "dll l ! iterator runner" "runner\<lparr>iterator := Suc (iterator runner)\<rparr>"]
          lt True "1.prems"
        by (simp add: SortedListGetData_def SortedListNext_def DLLGetData_def DLLNext_def)
      finally show ?thesis using True dr by simp
    next
      case False
      then show ?thesis using lt "1.prems" dr
        by (subst findif_scan.simps)
           (simp add: SortedListGetData_def SortedListNext_def DLLGetData_def DLLNext_def)
    qed
  qed
qed

lemma PriorityQueueErase_eq:
  "PriorityQueueErase queue ismatch parameter =
     (let xs = dll (sorted_list queue);
          n = length (takeWhile (\<lambda>x. ismatch x parameter = 0) xs)
      in if n = length xs then Inr (queue, QueueItself)
         else Inr (queue\<lparr>sorted_list := (sorted_list queue)\<lparr>dll := take n xs @ drop (Suc n) xs\<rparr>\<rparr>,
                   Payload (xs ! n)))"
proof -
  let ?l = "sorted_list queue"
  let ?xs = "dll ?l"
  let ?n = "length (takeWhile (\<lambda>x. ismatch x parameter = 0) ?xs)"
  have le: "?n \<le> length ?xs" by (rule length_takeWhile_le)
  have f: "SortedListFindIf ?l (SortedListBegin ?l) (SortedListEnd ?l) ismatch parameter =
             Inr (if ?n = length ?xs then SortedListEnd ?l else \<lparr>iterator = ?n, list = self ?l\<rparr>)"
    using findif_scan_eq[of "SortedListBegin ?l" ?l "SortedListEnd ?l" ismatch parameter]
    by (simp add: SortedListFindIf_def SortedListBegin_def SortedListEnd_def DLLBegin_def DLLEnd_def)
  show ?thesis
  proof (cases "?n = length ?xs")
    case True
    then show ?thesis
      unfolding PriorityQueueErase_def f by (simp add: SortedListIsEqual_def Let_def)
  next
    case False
    with le have lt: "?n < length ?xs" by simp
    show ?thesis
      unfolding PriorityQueueErase_def f using False lt
      by (simp add: SortedListIsEqual_def SortedListEnd_def DLLEnd_def SortedListGetData_def
          DLLGetData_def SortedListRemove_def DLLRemove_def Let_def)
  qed
qed

text \<open>
  C6. \<open>PriorityQueueErase\<close> searches the whole list with \<open>SortedListFindIf\<close>. When a
  payload matches, the first such payload is removed and returned; when none matches, the
  queue handle itself is returned and the queue is unchanged.
\<close>

theorem erase_contract:
  "PriorityQueueErase queue ismatch parameter =
     (case find (\<lambda>x. ismatch x parameter \<noteq> 0) (dll (sorted_list queue)) of
        None \<Rightarrow> Inr (queue, QueueItself)
      | Some x \<Rightarrow>
          Inr (queue\<lparr>sorted_list := (sorted_list queue)\<lparr>dll :=
                 takeWhile (\<lambda>x. ismatch x parameter = 0) (dll (sorted_list queue)) @
                 tl (dropWhile (\<lambda>x. ismatch x parameter = 0) (dll (sorted_list queue)))\<rparr>\<rparr>,
               Payload x))"
proof -
  let ?P = "\<lambda>x. ismatch x parameter = 0"
  let ?xs = "dll (sorted_list queue)"
  let ?n = "length (takeWhile ?P ?xs)"
  have fd: "find (\<lambda>x. ismatch x parameter \<noteq> 0) ?xs =
              (case dropWhile ?P ?xs of [] \<Rightarrow> None | x # _ \<Rightarrow> Some x)"
    by (simp add: find_dropWhile comp_def)
  have len: "length ?xs = ?n + length (dropWhile ?P ?xs)"
    by (metis length_append takeWhile_dropWhile_id)
  show ?thesis
  proof (cases "dropWhile ?P ?xs")
    case Nil
    with len have "?n = length ?xs" by simp
    then show ?thesis unfolding PriorityQueueErase_eq fd Nil Let_def by simp
  next
    case (Cons x rest)
    have lt: "?n < length ?xs" using len Cons by simp
    have x: "?xs ! ?n = x"
      using Cons lt by (metis dropWhile_eq_drop hd_drop_conv_nth list.sel(1))
    have tk: "take ?n ?xs = takeWhile ?P ?xs" by (rule takeWhile_eq_take[symmetric])
    have "drop ?n ?xs = x # rest" using Cons by (simp add: dropWhile_eq_drop[symmetric])
    then have dr: "drop (Suc ?n) ?xs = rest" by (metis drop_Suc list.sel(3) tl_drop)
    show ?thesis unfolding PriorityQueueErase_eq fd Cons Let_def tk dr x using lt by simp
  qed
qed

text \<open>
  The scenario of the spec: 1, 2 and 3 are enqueued; erasing "equals 2" returns 2 and
  leaves 1, 3; erasing again returns the queue handle and leaves 1, 3; the dequeues return
  1 and then 3.
\<close>

theorem erase_contract_witness:
  "PriorityQueueEnqueue (queue_of []) 1 True = Inr (queue_of [1], 0) \<and>
   PriorityQueueEnqueue (queue_of [1]) 2 True = Inr (queue_of [1, 2], 0) \<and>
   PriorityQueueEnqueue (queue_of [1, 2]) 3 True = Inr (queue_of [1, 2, 3], 0) \<and>
   PriorityQueueErase (queue_of [1, 2, 3]) equals 2 = Inr (queue_of [1, 3], Payload 2) \<and>
   PriorityQueueErase (queue_of [1, 3]) equals 2 = Inr (queue_of [1, 3], QueueItself) \<and>
   PriorityQueueDequeue (queue_of [1, 3]) = (queue_of [3], Payload 1) \<and>
   PriorityQueueDequeue (queue_of [3]) = (queue_of [], Payload 3)"
proof -
  have a: "PriorityQueueErase (queue_of [1, 2, 3]) equals 2 = Inr (queue_of [1, 3], Payload 2)"
    using erase_contract[of "queue_of [1, 2, 3]" equals 2]
    by (simp add: queue_of_def equals_def)
  have b: "PriorityQueueErase (queue_of [1, 3]) equals 2 = Inr (queue_of [1, 3], QueueItself)"
    using erase_contract[of "queue_of [1, 3]" equals 2]
    by (simp add: queue_of_def equals_def)
  show ?thesis
    using a b
    by (simp add: queue_of_def PriorityQueueEnqueue_ok num_ascending_def
        PriorityQueueDequeue_def SortedListPopFront_def DLLPopFront_def)
qed

text \<open>
  C10. When several payloads match, \<open>PriorityQueueErase\<close> removes exactly one: the first
  match in traversal order. The payloads in front of it and behind it, later matches
  included, stay in their order, and the number of matching payloads drops by one.
\<close>

theorem erase_first_match_only:
  assumes "dll (sorted_list queue) = pre @ x # post"
    and "\<forall>y \<in> set pre. ismatch y parameter = 0"
    and "ismatch x parameter \<noteq> 0"
  shows "PriorityQueueErase queue ismatch parameter =
           Inr (queue\<lparr>sorted_list := (sorted_list queue)\<lparr>dll := pre @ post\<rparr>\<rparr>, Payload x) \<and>
         length (filter (\<lambda>y. ismatch y parameter \<noteq> 0) (pre @ post)) =
           length (filter (\<lambda>y. ismatch y parameter \<noteq> 0) (dll (sorted_list queue))) - 1"
proof -
  let ?P = "\<lambda>x. ismatch x parameter = 0"
  have tw: "takeWhile ?P (pre @ x # post) = pre"
    using assms(2,3) by (simp add: takeWhile_append2)
  have n: "length (takeWhile ?P (dll (sorted_list queue))) = length pre"
    using tw assms(1) by simp
  have "PriorityQueueErase queue ismatch parameter =
           Inr (queue\<lparr>sorted_list := (sorted_list queue)\<lparr>dll := pre @ post\<rparr>\<rparr>, Payload x)"
    unfolding PriorityQueueErase_eq Let_def n using assms(1) by simp
  moreover have "filter (\<lambda>y. ismatch y parameter \<noteq> 0) pre = []"
    using assms(2) by (simp add: filter_empty_conv)
  ultimately show ?thesis using assms(1,3) by simp
qed

text \<open>
  Two payloads of priority 2: the one tagged 0 is removed, the one tagged 1 stays.
\<close>

theorem erase_first_match_only_witness:
  "priority_is (1, 0) 2 = 0 \<and> priority_is (2, 0) 2 \<noteq> 0 \<and>
   priority_is (2, 1) 2 \<noteq> 0 \<and>
   PriorityQueueErase
     \<lparr>sorted_list = \<lparr>self = 0, dll = [(1, 0), (2, 0), (2, 1), (3, 0)], cmp = by_priority\<rparr>\<rparr>
     priority_is 2 =
   Inr (\<lparr>sorted_list = \<lparr>self = 0, dll = [(1, 0), (2, 1), (3, 0)], cmp = by_priority\<rparr>\<rparr>,
        Payload (2, 0))"
proof -
  let ?q = "\<lparr>sorted_list = \<lparr>self = 0, dll = [(1, 0), (2, 0), (2, 1), (3, 0)], cmp = by_priority\<rparr>\<rparr>"
  have d: "dll (sorted_list ?q) = [(1, 0)] @ (2, 0) # [(2, 1), (3, 0)]" by simp
  have p: "\<forall>y \<in> set [(1, 0)]. priority_is y 2 = 0" by (simp add: priority_is_def)
  have x: "priority_is (2, 0) 2 \<noteq> 0" by (simp add: priority_is_def)
  have x': "priority_is (2, 1) 2 \<noteq> 0" by (simp add: priority_is_def)
  have p': "priority_is (1, 0) 2 = 0" by (simp add: priority_is_def)
  from erase_first_match_only[of ?q "[(1, 0)]" "(2, 0)" "[(2, 1), (3, 0)]" priority_is 2] d p
  have "PriorityQueueErase ?q priority_is 2 =
          Inr (\<lparr>sorted_list = \<lparr>self = 0, dll = [(1, 0), (2, 1), (3, 0)], cmp = by_priority\<rparr>\<rparr>,
               Payload (2, 0))"
    using x by simp
  with p' x x' show ?thesis by simp
qed

section \<open>Searching a range\<close>

lemma find_scan_eq:
  "iterator target \<le> iterator to \<Longrightarrow> iterator to \<le> length (dll l) \<Longrightarrow>
   find_scan l to parameter target =
     Inr (target\<lparr>iterator := iterator target +
            length (takeWhile (\<lambda>y. 0 < cmp l y parameter)
                      (take (iterator to - iterator target) (drop (iterator target) (dll l))))\<rparr>)"
proof (induction l to parameter target rule: find_scan.induct)
  case (1 l to parameter target)
  show ?case
  proof (cases "iterator target = iterator to")
    case True
    then show ?thesis by (subst find_scan.simps) simp
  next
    case False
    with "1.prems" have lt: "iterator target < iterator to" "iterator target < length (dll l)"
      by simp_all
    have e: "iterator to - iterator target = Suc (iterator to - Suc (iterator target))"
      using lt by arith
    have dr: "take (iterator to - iterator target) (drop (iterator target) (dll l)) =
                     dll l ! iterator target #
                     take (iterator to - Suc (iterator target)) (drop (Suc (iterator target)) (dll l))"
      unfolding e Cons_nth_drop_Suc[OF lt(2), symmetric] by simp
    show ?thesis
    proof (cases "0 < cmp l (dll l ! iterator target) parameter")
      case True
      have "find_scan l to parameter target =
              find_scan l to parameter (target\<lparr>iterator := Suc (iterator target)\<rparr>)"
        using lt True False
        by (subst find_scan.simps)
           (simp add: SortedListGetData_def SortedListNext_def DLLGetData_def DLLNext_def)
      also have "\<dots> = Inr (target\<lparr>iterator := Suc (iterator target) +
            length (takeWhile (\<lambda>y. 0 < cmp l y parameter)
                      (take (iterator to - Suc (iterator target))
                         (drop (Suc (iterator target)) (dll l))))\<rparr>)"
        using "1.IH"[of "dll l ! iterator target" "target\<lparr>iterator := Suc (iterator target)\<rparr>"]
          lt True False "1.prems"
        by (simp add: SortedListGetData_def SortedListNext_def DLLGetData_def DLLNext_def)
      finally show ?thesis using True dr by simp
    next
      case nonpos: False
      then show ?thesis using lt False dr
        by (subst find_scan.simps)
           (simp add: SortedListGetData_def SortedListNext_def DLLGetData_def DLLNext_def)
    qed
  qed
qed

text \<open>
  C8. On a range \<open>[from, to)\<close> of one list, \<open>SortedListFind\<close> returns a position \<open>r\<close> of
  the range or \<open>to\<close>: the comparator is positive on every payload from \<open>from\<close> up to
  \<open>r\<close> and the key, and when \<open>r\<close> is not \<open>to\<close> it is zero or negative on the payload at
  \<open>r\<close> and the key.
\<close>

theorem find_range:
  assumes "list from = list to"
    and "iterator from \<le> iterator to"
    and "iterator to \<le> length (dll l)"
  shows "\<exists>r. SortedListFind l from to key = Inr (from\<lparr>iterator := r\<rparr>) \<and>
             iterator from \<le> r \<and> r \<le> iterator to \<and>
             (\<forall>i. iterator from \<le> i \<and> i < r \<longrightarrow> 0 < cmp l (dll l ! i) key) \<and>
             (r < iterator to \<longrightarrow> cmp l (dll l ! r) key \<le> 0)"
proof -
  let ?P = "\<lambda>y. 0 < cmp l y key"
  let ?ys = "take (iterator to - iterator from) (drop (iterator from) (dll l))"
  let ?k = "length (takeWhile ?P ?ys)"
  let ?r = "iterator from + ?k"
  have ly: "length ?ys = iterator to - iterator from" using assms(2,3) by simp
  have kle: "?k \<le> iterator to - iterator from"
    using length_takeWhile_le[of ?P ?ys] ly by simp
  have nth: "\<And>j. j < iterator to - iterator from \<Longrightarrow> ?ys ! j = dll l ! (iterator from + j)"
    using assms(2,3) by simp
  have f: "SortedListFind l from to key = Inr (from\<lparr>iterator := ?r\<rparr>)"
    using find_scan_eq[OF assms(2,3), of key] assms(1) by (simp add: SortedListFind_def)
  have before: "\<forall>i. iterator from \<le> i \<and> i < ?r \<longrightarrow> 0 < cmp l (dll l ! i) key"
  proof (intro allI impI)
    fix i assume i: "iterator from \<le> i \<and> i < ?r"
    let ?j = "i - iterator from"
    have j: "?j < ?k" using i by arith
    then have "takeWhile ?P ?ys ! ?j \<in> set (takeWhile ?P ?ys)" by simp
    then have "?P (takeWhile ?P ?ys ! ?j)" by (rule set_takeWhileD[THEN conjunct2])
    moreover have "takeWhile ?P ?ys ! ?j = ?ys ! ?j" using j by (rule takeWhile_nth)
    moreover have "?ys ! ?j = dll l ! (iterator from + ?j)" using j kle by (intro nth) arith
    moreover have "iterator from + ?j = i" using i by arith
    ultimately show "0 < cmp l (dll l ! i) key" by simp
  qed
  have stop: "?r < iterator to \<longrightarrow> cmp l (dll l ! ?r) key \<le> 0"
  proof
    assume "?r < iterator to"
    then have k: "?k < length ?ys" using ly by arith
    then have "\<not> ?P (?ys ! ?k)" by (rule nth_length_takeWhile)
    moreover have "?ys ! ?k = dll l ! ?r" using k ly by (intro nth) arith
    ultimately show "cmp l (dll l ! ?r) key \<le> 0" by simp
  qed
  have bounds: "iterator from \<le> ?r" "?r \<le> iterator to" using kle assms(2) by arith+
  show ?thesis
    by (intro exI[of _ ?r] conjI f bounds before stop)
qed

text \<open>
  The sorted list 2, 4, 6: from the second position the key 1 exhausts the range, and
  from the first position the key 4 stops at once.
\<close>

theorem find_range_witness:
  "list \<lparr>iterator = 1, list = 7\<rparr> = list \<lparr>iterator = 3, list = 7\<rparr> \<and>
   iterator \<lparr>iterator = 1, list = 7\<rparr> \<le> iterator \<lparr>iterator = 3, list = 7\<rparr> \<and>
   iterator \<lparr>iterator = 3, list = 7\<rparr> \<le> length (dll \<lparr>self = 7, dll = [2, 4, 6], cmp = num_ascending\<rparr>) \<and>
   SortedListFind \<lparr>self = 7, dll = [2, 4, 6], cmp = num_ascending\<rparr>
     \<lparr>iterator = 1, list = 7\<rparr> \<lparr>iterator = 3, list = 7\<rparr> 1 = Inr \<lparr>iterator = 3, list = 7\<rparr> \<and>
   SortedListFind \<lparr>self = 7, dll = [2, 4, 6], cmp = num_ascending\<rparr>
     \<lparr>iterator = 0, list = 7\<rparr> \<lparr>iterator = 3, list = 7\<rparr> 4 = Inr \<lparr>iterator = 0, list = 7\<rparr>"
proof -
  let ?l = "\<lparr>self = 7, dll = [2, 4, 6], cmp = num_ascending\<rparr>"
  let ?to = "\<lparr>iterator = 3, list = 7\<rparr>"
  have h: "list \<lparr>iterator = 1, list = 7\<rparr> = list ?to"
    "iterator \<lparr>iterator = 1, list = 7\<rparr> \<le> iterator ?to" "iterator ?to \<le> length (dll ?l)"
    by simp_all
  from find_range[OF h, of 1] obtain r where
    f: "SortedListFind ?l \<lparr>iterator = 1, list = 7\<rparr> ?to 1 = Inr (\<lparr>iterator = 1, list = 7\<rparr>\<lparr>iterator := r\<rparr>)"
    and b: "1 \<le> r" "r \<le> 3" and s: "r < 3 \<longrightarrow> cmp ?l (dll ?l ! r) 1 \<le> 0"
    by auto
  have "r = 3"
  proof (rule ccontr)
    assume "r \<noteq> 3"
    with b have "r = 1 \<or> r = 2" by arith
    with s show False by (auto simp: num_ascending_def)
  qed
  with f have a: "SortedListFind ?l \<lparr>iterator = 1, list = 7\<rparr> ?to 1 = Inr ?to" by simp
  have h0: "list \<lparr>iterator = 0, list = 7\<rparr> = list ?to"
    "iterator \<lparr>iterator = 0, list = 7\<rparr> \<le> iterator ?to" "iterator ?to \<le> length (dll ?l)"
    by simp_all
  from find_range[OF h0, of 4] obtain q where
    f0: "SortedListFind ?l \<lparr>iterator = 0, list = 7\<rparr> ?to 4 = Inr (\<lparr>iterator = 0, list = 7\<rparr>\<lparr>iterator := q\<rparr>)"
    and s0: "\<forall>i. 0 \<le> i \<and> i < q \<longrightarrow> 0 < cmp ?l (dll ?l ! i) 4"
    by auto
  have "q = 0"
  proof (rule ccontr)
    assume "q \<noteq> 0"
    then have "0 \<le> (0::nat) \<and> 0 < q" by simp
    with s0 have "0 < cmp ?l (dll ?l ! 0) 4" by blast
    then show False by (simp add: num_ascending_def)
  qed
  with f0 have c: "SortedListFind ?l \<lparr>iterator = 0, list = 7\<rparr> ?to 4 = Inr \<lparr>iterator = 0, list = 7\<rparr>"
    by simp
  show ?thesis using h a c by simp
qed

section \<open>Ranges across containers\<close>

text \<open>
  C9, as amended. In the debug build, two iterators of different lists make
  \<open>SortedListFind\<close> and \<open>SortedListFindIf\<close> fail their assertion; \<open>SortedListForEach\<close>
  does not assert: it returns \<open>-1\<close>, whatever the action is.
\<close>

theorem cross_container_range:
  assumes "list from \<noteq> list to"
  shows "SortedListFind l from to key = Inl AssertionFailed \<and>
         SortedListFindIf l from to match parameter = Inl AssertionFailed \<and>
         SortedListForEach l from to action parameter' = Inr (- 1)"
  using assms by (simp add: SortedListFind_def SortedListFindIf_def SortedListForEach_def)

text \<open>The first position of one list and the end of another one.\<close>

theorem cross_container_range_witness:
  "list (SortedListBegin \<lparr>self = 1, dll = [1, 2], cmp = num_ascending\<rparr>) \<noteq>
     list (SortedListEnd \<lparr>self = 2, dll = [3], cmp = num_ascending\<rparr>) \<and>
   SortedListFind \<lparr>self = 1, dll = [1, 2], cmp = num_ascending\<rparr>
     (SortedListBegin \<lparr>self = 1, dll = [1, 2], cmp = num_ascending\<rparr>)
     (SortedListEnd \<lparr>self = 2, dll = [3], cmp = num_ascending\<rparr>) 2 = Inl AssertionFailed \<and>
   SortedListFindIf \<lparr>self = 1, dll = [1, 2], cmp = num_ascending\<rparr>
     (SortedListBegin \<lparr>self = 1, dll = [1, 2], cmp = num_ascending\<rparr>)
     (SortedListEnd \<lparr>self = 2, dll = [3], cmp = num_ascending\<rparr>) equals 2 = Inl AssertionFailed \<and>
   SortedListForEach \<lparr>self = 1, dll = [1, 2], cmp = num_ascending\<rparr>
     (SortedListBegin \<lparr>self = 1, dll = [1, 2], cmp = num_ascending\<rparr>)
     (SortedListEnd \<lparr>self = 2, dll = [3], cmp = num_ascending\<rparr>) count_action 0 = Inr (- 1)"
proof -
  let ?l1 = "\<lparr>self = 1, dll = [1, 2], cmp = num_ascending\<rparr>"
  let ?l2 = "\<lparr>self = 2, dll = [3], cmp = num_ascending\<rparr>"
  have d: "list (SortedListBegin ?l1) \<noteq> list (SortedListEnd ?l2)"
    by (simp add: SortedListBegin_def SortedListEnd_def)
  from cross_container_range[OF d, of ?l1 2 equals 2 count_action 0] d show ?thesis by simp
qed

text \<open>
  C9 as stated fails for \<open>SortedListForEach\<close>: on the same two iterators it completes
  and returns the ordinary value \<open>-1\<close>.
\<close>

theorem cross_container_range_counterexample:
  "list (SortedListBegin \<lparr>self = 1, dll = [1, 2], cmp = num_ascending\<rparr>) \<noteq>
     list (SortedListEnd \<lparr>self = 2, dll = [3], cmp = num_ascending\<rparr>) \<and>
   SortedListForEach \<lparr>self = 1, dll = [1, 2], cmp = num_ascending\<rparr>
     (SortedListBegin \<lparr>self = 1, dll = [1, 2], cmp = num_ascending\<rparr>)
     (SortedListEnd \<lparr>self = 2, dll = [3], cmp = num_ascending\<rparr>) count_action 0 = Inr (- 1) \<and>
   SortedListForEach \<lparr>self = 1, dll = [1, 2], cmp = num_ascending\<rparr>
     (SortedListBegin \<lparr>self = 1, dll = [1, 2], cmp = num_ascending\<rparr>)
     (SortedListEnd \<lparr>self = 2, dll = [3], cmp = num_ascending\<rparr>) count_action 0 \<noteq> Inl AssertionFailed"
  by (simp add: SortedListForEach_def SortedListBegin_def SortedListEnd_def)

end
